theory Spec2Isabelle
  imports Main "HOL-Library.Word"
begin

section \<open>Data model of \<^verbatim>\<open>codeflare/pipelines/Datamodel.py\<close>\<close>

text \<open>
  Exceptions of the Python code are values of \<open>error\<close>; a function that can raise
  returns \<open>error + 'a\<close> with \<open>Inl\<close> for the exception.
\<close>

datatype error = KeyError | IndexError | RecursionError | TypeError

datatype NodeInputType = OR | AND

datatype NodeFiringType = ANY | ALL

datatype NodeStateType = STATELESS | IMMUTABLE | MUTABLE_SEQUENTIAL | MUTABLE_AGGREGATE

text \<open>
  The value of \<^verbatim>\<open>uuid.uuid4()\<close> is a 128-bit number. The generator is outside the
  program, so every constructor takes the drawn value as an argument.
\<close>

type_synonym uuid = "128 word"

text \<open>
  The object wrapped by a node (an estimator or an and-function) is an arbitrary Python
  object: the code never inspects it. It is modelled by the names of the methods it
  offers and by its parameters.
\<close>

record capability =
  methods :: "string list"
  params :: "(string \<times> int) list"

datatype node_class = EstimatorNode | AndNode

text \<open>
  An object of class \<^verbatim>\<open>Node\<close>: \<open>node_class\<close> is \<^verbatim>\<open>self.__class__\<close>, \<open>wrapped\<close> is
  \<^verbatim>\<open>__estimator__\<close> of an EstimatorNode and \<^verbatim>\<open>__andfunc__\<close> of an AndNode.
\<close>

record Node =
  node_class :: node_class
  node_name :: string
  node_input_type :: NodeInputType
  node_firing_type :: NodeFiringType
  node_state_type :: NodeStateType
  node_id :: uuid
  wrapped :: capability

text \<open>\<^verbatim>\<open>Node.__init__\<close>: stores its arguments and draws a fresh id.\<close>

definition Node_init ::
  "node_class \<Rightarrow> string \<Rightarrow> NodeInputType \<Rightarrow> NodeFiringType \<Rightarrow> NodeStateType \<Rightarrow> capability \<Rightarrow> uuid \<Rightarrow> Node"
where
  "Node_init cls name input_type firing_type state_type obj fresh_id =
     \<lparr>node_class = cls, node_name = name, node_input_type = input_type,
      node_firing_type = firing_type, node_state_type = state_type,
      node_id = fresh_id, wrapped = obj\<rparr>"

definition get_id :: "Node \<Rightarrow> uuid" where
  "get_id n = node_id n"

text \<open>
  \<^verbatim>\<open>Node.__hash__\<close> returns the hash of the id, which CPython on a 64-bit platform
  computes as the id's number reduced modulo \<open>2\<^sup>6\<^sup>1 - 1\<close>. \<^verbatim>\<open>Node.__eq__\<close> compares class,
  id and name.
\<close>

definition node_hash :: "Node \<Rightarrow> nat" where
  "node_hash n = unat (node_id n) mod (2 ^ 61 - 1)"

definition node_eq :: "Node \<Rightarrow> Node \<Rightarrow> bool" where
  "node_eq a b \<longleftrightarrow>
     node_class a = node_class b \<and> node_id a = node_id b \<and> node_name a = node_name b"

text \<open>
  The docstrings of \<^verbatim>\<open>Node\<close> and of \<^verbatim>\<open>Node.__eq__\<close> describe another equality: "defined
  as the class names match and the node names match". It follows the docstrings' words
  and is kept apart from \<open>node_eq\<close>, which is what the code computes.
\<close>

definition node_eq_documented :: "Node \<Rightarrow> Node \<Rightarrow> bool" where
  "node_eq_documented a b \<longleftrightarrow> node_class a = node_class b \<and> node_name a = node_name b"

text \<open>
  \<^verbatim>\<open>EstimatorNode.__init__\<close> and \<^verbatim>\<open>AndNode.__init__\<close>. Neither has a statement that
  raises; the result type has the error branch so that this can be stated.
\<close>

definition EstimatorNode_init :: "string \<Rightarrow> capability \<Rightarrow> uuid \<Rightarrow> error + Node" where
  "EstimatorNode_init name estimator fresh_id =
     Inr (Node_init EstimatorNode name OR ANY IMMUTABLE estimator fresh_id)"

definition AndNode_init :: "string \<Rightarrow> capability \<Rightarrow> uuid \<Rightarrow> error + Node" where
  "AndNode_init name and_func fresh_id =
     Inr (Node_init AndNode name AND ANY STATELESS and_func fresh_id)"

definition get_estimator :: "Node \<Rightarrow> capability" where
  "get_estimator n = wrapped n"

definition get_and_func :: "Node \<Rightarrow> capability" where
  "get_and_func n = wrapped n"

text \<open>
  \<^verbatim>\<open>clone\<close>, dispatched on the class. \<^verbatim>\<open>sklearn.base.clone\<close> is a library function,
  taken as the parameter \<open>base_clone\<close> (it may raise). The constructor called by
  \<^verbatim>\<open>clone\<close> draws an id of its own, the argument \<open>fresh_id\<close>.
\<close>

definition clone :: "(capability \<Rightarrow> error + capability) \<Rightarrow> Node \<Rightarrow> uuid \<Rightarrow> error + Node" where
  "clone base_clone n fresh_id =
     (case node_class n of
        EstimatorNode \<Rightarrow>
          (case base_clone (wrapped n) of
             Inl e \<Rightarrow> Inl e
           | Inr cloned_estimator \<Rightarrow> EstimatorNode_init (node_name n) cloned_estimator fresh_id)
      | AndNode \<Rightarrow> AndNode_init (node_name n) (wrapped n) fresh_id)"

text \<open>An \<^verbatim>\<open>Edge\<close>; an endpoint that is \<^verbatim>\<open>None\<close> in Python is \<open>None\<close> here.\<close>

record Edge =
  from_node :: "Node option"
  to_node :: "Node option"

definition Edge_init :: "Node option \<Rightarrow> Node option \<Rightarrow> Edge" where
  "Edge_init f t = \<lparr>from_node = f, to_node = t\<rparr>"

subsection \<open>Dictionaries keyed by nodes\<close>

text \<open>
  A Python \<^verbatim>\<open>dict\<close> keyed by nodes keeps its entries in insertion order and finds a
  key by \<^verbatim>\<open>__hash__\<close> and \<^verbatim>\<open>__eq__\<close>. Equal nodes have equal ids, hence equal
  hashes, so a lookup finds the entry whose key is \<open>node_eq\<close> to the node looked up.
  An assignment to a key already present replaces the value and keeps the stored key
  object and its position; a new key goes to the end.
\<close>

type_synonym 'v node_dict = "(Node \<times> 'v) list"

fun dict_get :: "'v node_dict \<Rightarrow> Node \<Rightarrow> 'v option" where
  "dict_get [] k = None"
| "dict_get ((k', v) # d) k = (if node_eq k' k then Some v else dict_get d k)"

definition dict_contains :: "'v node_dict \<Rightarrow> Node \<Rightarrow> bool" where
  "dict_contains d k \<longleftrightarrow> dict_get d k \<noteq> None"

fun dict_set :: "'v node_dict \<Rightarrow> Node \<Rightarrow> 'v \<Rightarrow> 'v node_dict" where
  "dict_set [] k v = [(k, v)]"
| "dict_set ((k', v') # d) k v =
     (if node_eq k' k then (k', v) # d else (k', v') # dict_set d k v)"

definition dict_keys :: "'v node_dict \<Rightarrow> Node list" where
  "dict_keys d = map fst d"

subsection \<open>The pipeline\<close>

record Pipeline =
  pre_graph :: "Node list node_dict"
  post_graph :: "Node list node_dict"
  node_levels :: "int node_dict option"
  level_nodes :: "Node list list option"

definition Pipeline_init :: Pipeline where
  "Pipeline_init = \<lparr>pre_graph = [], post_graph = [], node_levels = None, level_nodes = None\<rparr>"

definition add_node :: "Pipeline \<Rightarrow> Node \<Rightarrow> Pipeline" where
  "add_node p node =
     (let p1 = p\<lparr>node_levels := None, level_nodes := None\<rparr> in
      if \<not> dict_contains (pre_graph p1) node
      then p1\<lparr>pre_graph := dict_set (pre_graph p1) node [],
              post_graph := dict_set (post_graph p1) node []\<rparr>
      else p1)"

text \<open>
  \<^verbatim>\<open>add_edge\<close>: the two \<^verbatim>\<open>append\<close> calls change the lists stored in the dictionaries;
  each list was created by its own \<^verbatim>\<open>[]\<close> in \<^verbatim>\<open>add_node\<close>, so no two keys share one.
\<close>

definition add_edge :: "Pipeline \<Rightarrow> Node \<Rightarrow> Node \<Rightarrow> error + Pipeline" where
  "add_edge p from_n to_n =
     (let p2 = add_node (add_node p from_n) to_n in
      case dict_get (pre_graph p2) to_n of
        None \<Rightarrow> Inl KeyError
      | Some pre \<Rightarrow>
          (let p3 = p2\<lparr>pre_graph := dict_set (pre_graph p2) to_n (pre @ [from_n])\<rparr> in
           case dict_get (post_graph p3) from_n of
             None \<Rightarrow> Inl KeyError
           | Some post \<Rightarrow>
               Inr (p3\<lparr>post_graph := dict_set (post_graph p3) from_n (post @ [to_n])\<rparr>)))"

definition get_preimage :: "Pipeline \<Rightarrow> Node \<Rightarrow> error + Node list" where
  "get_preimage p node =
     (case dict_get (pre_graph p) node of None \<Rightarrow> Inl KeyError | Some pre \<Rightarrow> Inr pre)"

definition get_postimage :: "Pipeline \<Rightarrow> Node \<Rightarrow> error + Node list" where
  "get_postimage p node =
     (case dict_get (post_graph p) node of None \<Rightarrow> Inl KeyError | Some post \<Rightarrow> Inr post)"

text \<open>
  \<^verbatim>\<open>compute_node_level\<close> with its loop over the preimage. The first argument is the
  number of nested calls of \<^verbatim>\<open>compute_node_level\<close> the interpreter still allows: a
  call with none left raises \<^verbatim>\<open>RecursionError\<close>, which is what a cyclic graph ends in.
  The memo table \<open>result\<close> is changed in place in Python and returned here.
\<close>

fun compute_node_level :: "nat \<Rightarrow> Pipeline \<Rightarrow> Node \<Rightarrow> int node_dict \<Rightarrow> error + (int \<times> int node_dict)"
and compute_preimage_levels ::
  "nat \<Rightarrow> Pipeline \<Rightarrow> Node list \<Rightarrow> int \<Rightarrow> int node_dict \<Rightarrow> error + (int \<times> int node_dict)"
where
  "compute_node_level 0 p node result = Inl RecursionError"
| "compute_node_level (Suc depth) p node result =
     (case dict_get result node of
        Some level \<Rightarrow> Inr (level, result)
      | None \<Rightarrow>
          (case get_preimage p node of
             Inl e \<Rightarrow> Inl e
           | Inr node_preimage \<Rightarrow>
               if node_preimage = [] then Inr (0, dict_set result node 0)
               else
                 (case compute_preimage_levels depth p node_preimage 0 result of
                    Inl e \<Rightarrow> Inl e
                  | Inr (max_level, result') \<Rightarrow>
                      Inr (max_level + 1, dict_set result' node (max_level + 1)))))"
| "compute_preimage_levels depth p [] max_level result = Inr (max_level, result)"
| "compute_preimage_levels depth p (p_node # rest) max_level result =
     (case compute_node_level depth p p_node result of
        Inl e \<Rightarrow> Inl e
      | Inr (level, result') \<Rightarrow>
          compute_preimage_levels depth p rest (max level max_level) result')"

text \<open>The loop of \<^verbatim>\<open>compute_node_levels\<close> over the keys of \<^verbatim>\<open>__pre_graph__\<close>.\<close>

fun compute_levels_loop ::
  "nat \<Rightarrow> Pipeline \<Rightarrow> Node list \<Rightarrow> int node_dict \<Rightarrow> error + int node_dict"
where
  "compute_levels_loop depth p [] result = Inr result"
| "compute_levels_loop depth p (node # rest) result =
     (case compute_node_level depth p node result of
        Inl e \<Rightarrow> Inl e
      | Inr (level, result') \<Rightarrow> compute_levels_loop depth p rest (dict_set result' node level))"

text \<open>
  \<^verbatim>\<open>compute_node_levels\<close>: \<^verbatim>\<open>if self.__node_levels__\<close> is true for a dictionary with
  at least one entry, false for \<^verbatim>\<open>None\<close> and for the empty dictionary. The cache is
  assigned after the loop, so an exception leaves the pipeline as it was.
\<close>

definition compute_node_levels :: "nat \<Rightarrow> Pipeline \<Rightarrow> error + (int node_dict \<times> Pipeline)" where
  "compute_node_levels depth p =
     (case node_levels p of
        Some (entry # entries) \<Rightarrow> Inr (entry # entries, p)
      | _ \<Rightarrow>
          (case compute_levels_loop depth p (dict_keys (pre_graph p)) [] of
             Inl e \<Rightarrow> Inl e
           | Inr result \<Rightarrow> Inr (result, p\<lparr>node_levels := Some result\<rparr>)))"

definition compute_max_level :: "nat \<Rightarrow> Pipeline \<Rightarrow> error + (int \<times> Pipeline)" where
  "compute_max_level depth p =
     (case compute_node_levels depth p of
        Inl e \<Rightarrow> Inl e
      | Inr (levels, p') \<Rightarrow>
          Inr (fold (\<lambda>(node, node_level) max_level. max node_level max_level) levels 0, p'))"

text \<open>
  \<^verbatim>\<open>result[node_level].append(node)\<close>: a negative index counts from the end of the
  list, an index out of range raises \<^verbatim>\<open>IndexError\<close>.
\<close>

definition bucket_append :: "Node list list \<Rightarrow> int \<Rightarrow> Node \<Rightarrow> error + Node list list" where
  "bucket_append result node_level node =
     (let n = int (length result);
          j = (if node_level < 0 then n + node_level else node_level)
      in if 0 \<le> j \<and> j < n then Inr (result[nat j := result ! nat j @ [node]])
         else Inl IndexError)"

fun fill_buckets :: "Node list list \<Rightarrow> int node_dict \<Rightarrow> error + Node list list" where
  "fill_buckets result [] = Inr result"
| "fill_buckets result ((node, node_level) # rest) =
     (case bucket_append result node_level node of
        Inl e \<Rightarrow> Inl e
      | Inr result' \<Rightarrow> fill_buckets result' rest)"

text \<open>
  \<^verbatim>\<open>get_nodes_by_level\<close>: \<^verbatim>\<open>if self.__level_nodes__\<close> is true for a list with at least
  one bucket, false for \<^verbatim>\<open>None\<close> and for the empty list; \<^verbatim>\<open>range(result_size)\<close> is
  empty when \<^verbatim>\<open>result_size\<close> is not positive.
\<close>

definition get_nodes_by_level :: "nat \<Rightarrow> Pipeline \<Rightarrow> error + (Node list list \<times> Pipeline)" where
  "get_nodes_by_level depth p =
     (case level_nodes p of
        Some (bucket # buckets) \<Rightarrow> Inr (bucket # buckets, p)
      | _ \<Rightarrow>
          (case compute_node_levels depth p of
             Inl e \<Rightarrow> Inl e
           | Inr (levels, p1) \<Rightarrow>
               (case compute_max_level depth p1 of
                  Inl e \<Rightarrow> Inl e
                | Inr (max_level, p2) \<Rightarrow>
                    (let result_size = max_level + 1 in
                     case fill_buckets (replicate (nat result_size) []) levels of
                       Inl e \<Rightarrow> Inl e
                     | Inr result \<Rightarrow> Inr (result, p2\<lparr>level_nodes := Some result\<rparr>)))))"

definition get_post_nodes :: "Pipeline \<Rightarrow> Node \<Rightarrow> error + Node list" where
  "get_post_nodes p node = get_postimage p node"

definition get_pre_nodes :: "Pipeline \<Rightarrow> Node \<Rightarrow> error + Node list" where
  "get_pre_nodes p node = get_preimage p node"

definition get_pre_edges :: "Pipeline \<Rightarrow> Node \<Rightarrow> error + Edge list" where
  "get_pre_edges p node =
     (case dict_get (pre_graph p) node of
        None \<Rightarrow> Inl KeyError
      | Some pre_nodes \<Rightarrow>
          Inr ((if pre_nodes = [] then [Edge_init None (Some node)] else [])
               @ map (\<lambda>pre_node. Edge_init (Some pre_node) (Some node)) pre_nodes))"

definition get_post_edges :: "Pipeline \<Rightarrow> Node \<Rightarrow> error + Edge list" where
  "get_post_edges p node =
     (case dict_get (post_graph p) node of
        None \<Rightarrow> Inl KeyError
      | Some post_nodes \<Rightarrow>
          Inr ((if post_nodes = [] then [Edge_init (Some node) None] else [])
               @ map (\<lambda>post_node. Edge_init (Some node) (Some post_node)) post_nodes))"

definition is_terminal :: "Pipeline \<Rightarrow> Node \<Rightarrow> error + bool" where
  "is_terminal p node =
     (case get_post_edges p node of
        Inl e \<Rightarrow> Inl e
      | Inr node_post_edges \<Rightarrow> Inr (length node_post_edges = 0))"

subsection \<open>Contracts named by the specification and example values\<close>

text \<open>
  The two contracts follow the specification's words, not the code (the code has no
  counterpart): an object satisfies the fit/transform contract when it offers a method
  \<^verbatim>\<open>fit\<close> and a method \<^verbatim>\<open>transform\<close>, and the multi-input transform contract when it
  offers a method \<^verbatim>\<open>transform\<close>.
\<close>

definition fit_transform_contract :: "capability \<Rightarrow> bool" where
  "fit_transform_contract c \<longleftrightarrow> ''fit'' \<in> set (methods c) \<and> ''transform'' \<in> set (methods c)"

definition multi_input_transform_contract :: "capability \<Rightarrow> bool" where
  "multi_input_transform_contract c \<longleftrightarrow> ''transform'' \<in> set (methods c)"

text \<open>
  Example values: an object without any method, nodes A, B (EstimatorNodes) and C (an
  AndNode) with distinct ids, the node that \<^verbatim>\<open>clone\<close> returns for C when the id 4 is
  drawn, and the pipelines used as examples below.
\<close>

definition cap_none :: capability where
  "cap_none = \<lparr>methods = [], params = []\<rparr>"

definition node_A :: Node where
  "node_A = Node_init EstimatorNode ''A'' OR ANY IMMUTABLE cap_none 1"

definition node_B :: Node where
  "node_B = Node_init EstimatorNode ''B'' OR ANY IMMUTABLE cap_none 5"

definition node_C :: Node where
  "node_C = Node_init AndNode ''C'' AND ANY STATELESS cap_none 3"

definition node_C_clone :: Node where
  "node_C_clone = Node_init AndNode ''C'' AND ANY STATELESS cap_none 4"

text \<open>
  An estimator as the library knows them, offering \<^verbatim>\<open>get_params\<close>; a stand-in for the
  library's \<^verbatim>\<open>clone\<close>, which hands back an object of the same class with the same
  parameters and raises \<^verbatim>\<open>TypeError\<close> for an object without \<^verbatim>\<open>get_params\<close>; an
  EstimatorNode E wrapping the estimator, and the node that \<^verbatim>\<open>clone\<close> returns for E when
  the id 7 is drawn.
\<close>

definition cap_estimator :: capability where
  "cap_estimator =
     \<lparr>methods = [''fit'', ''transform'', ''get_params'', ''set_params''], params = [(''degree'', 2)]\<rparr>"

definition example_base_clone :: "capability \<Rightarrow> error + capability" where
  "example_base_clone obj =
     (if ''get_params'' \<in> set (methods obj)
      then Inr \<lparr>methods = methods obj, params = params obj\<rparr>
      else Inl TypeError)"

definition node_E :: Node where
  "node_E = Node_init EstimatorNode ''E'' OR ANY IMMUTABLE cap_estimator 6"

definition node_E_clone :: Node where
  "node_E_clone = Node_init EstimatorNode ''E'' OR ANY IMMUTABLE cap_estimator 7"

definition pipeline_A :: Pipeline where
  "pipeline_A = add_node Pipeline_init node_A"

definition pipeline_A_levelled :: Pipeline where
  "pipeline_A_levelled = pipeline_A\<lparr>node_levels := Some [(node_A, 0)]\<rparr>"

definition pipeline_AC :: Pipeline where
  "pipeline_AC =
     \<lparr>pre_graph = [(node_A, []), (node_C, [node_A])],
      post_graph = [(node_A, [node_C]), (node_C, [])],
      node_levels = None, level_nodes = None\<rparr>"

definition pipeline_ABC :: Pipeline where
  "pipeline_ABC =
     \<lparr>pre_graph = [(node_A, []), (node_C, [node_A, node_B]), (node_B, [])],
      post_graph = [(node_A, [node_C]), (node_C, []), (node_B, [node_C])],
      node_levels = None, level_nodes = None\<rparr>"

definition pipeline_loop :: Pipeline where
  "pipeline_loop =
     \<lparr>pre_graph = [(node_A, [node_A])], post_graph = [(node_A, [node_A])],
      node_levels = None, level_nodes = None\<rparr>"

subsection \<open>Reachable pipelines and the edge relation\<close>

text \<open>
  \<open>key_of\<close> collects what \<^verbatim>\<open>Node.__eq__\<close> compares: two nodes are \<open>node_eq\<close> exactly when
  they have the same key. The edge relation of a graph relates the key of a predecessor
  to the key of its successor; a pipeline is acyclic when \<open>acyclic (edges (pre_graph p))\<close>.
\<close>

type_synonym node_key = "node_class \<times> uuid \<times> string"

definition key_of :: "Node \<Rightarrow> node_key" where
  "key_of n = (node_class n, node_id n, node_name n)"

definition edges :: "Node list node_dict \<Rightarrow> (node_key \<times> node_key) set" where
  "edges g = (\<Union>(n, pre) \<in> set g. (\<lambda>q. (key_of q, key_of n)) ` set pre)"

text \<open>
  The pipelines that calls of the public methods can produce from a new pipeline. Only
  calls that return are listed: a call of a level query that raises leaves the pipeline
  either as it was or as a returning \<^verbatim>\<open>compute_node_levels\<close> leaves it, and \<^verbatim>\<open>add_edge\<close>
  never raises in a reachable pipeline (\<open>graph_inv_add_edge\<close> below). The queries that
  hand out the stored lists are read-only here.
\<close>

inductive reachable :: "Pipeline \<Rightarrow> bool" where
  init: "reachable Pipeline_init"
| add_node: "reachable p \<Longrightarrow> reachable (add_node p n)"
| add_edge: "reachable p \<Longrightarrow> add_edge p from_n to_n = Inr p' \<Longrightarrow> reachable p'"
| compute_node_levels: "reachable p \<Longrightarrow> compute_node_levels depth p = Inr (levels, p') \<Longrightarrow> reachable p'"
| compute_max_level: "reachable p \<Longrightarrow> compute_max_level depth p = Inr (max_level, p') \<Longrightarrow> reachable p'"
| get_nodes_by_level: "reachable p \<Longrightarrow> get_nodes_by_level depth p = Inr (buckets, p') \<Longrightarrow> reachable p'"

subsection \<open>Invariants used in the proofs\<close>

text \<open>
  The graph invariant: both mappings have the same keys, no two keys are equal nodes,
  and every node in a predecessor list is a key.
\<close>

definition closed_graph :: "Node list node_dict \<Rightarrow> bool" where
  "closed_graph g \<longleftrightarrow> (\<forall>(n, pre) \<in> set g. \<forall>q \<in> set pre. dict_contains g q)"

definition graph_inv :: "Pipeline \<Rightarrow> bool" where
  "graph_inv p \<longleftrightarrow>
     dict_keys (post_graph p) = dict_keys (pre_graph p) \<and>
     distinct (map key_of (dict_keys (pre_graph p))) \<and>
     closed_graph (pre_graph p)"

text \<open>
  The memo table of \<^verbatim>\<open>compute_node_level\<close>: \<open>rec_ok p r n l\<close> says that \<open>l\<close> is what the
  recurrence gives for \<open>n\<close> from the levels that \<open>r\<close> holds for the predecessors of \<open>n\<close>
  (the loop computes \<open>fold max ls 0\<close>); \<open>memo_ok\<close> says that every entry of the table is
  of this kind; \<open>memo_extends\<close> says that a table keeps the entries of an earlier one.
\<close>

definition memo_extends :: "int node_dict \<Rightarrow> int node_dict \<Rightarrow> bool" where
  "memo_extends r r' \<longleftrightarrow> (\<forall>k l. dict_get r k = Some l \<longrightarrow> dict_get r' k = Some l)"

definition rec_ok :: "Pipeline \<Rightarrow> int node_dict \<Rightarrow> Node \<Rightarrow> int \<Rightarrow> bool" where
  "rec_ok p r n l \<longleftrightarrow>
     (\<exists>pre. dict_get (pre_graph p) n = Some pre \<and>
        (pre = [] \<longrightarrow> l = 0) \<and>
        (pre \<noteq> [] \<longrightarrow>
           (\<exists>ls. list_all2 (\<lambda>q lq. dict_get r q = Some lq) pre ls \<and> l = 1 + fold max ls 0)))"

definition memo_ok :: "Pipeline \<Rightarrow> int node_dict \<Rightarrow> bool" where
  "memo_ok p r \<longleftrightarrow>
     distinct (map key_of (dict_keys r)) \<and>
     (\<forall>n l. dict_get r n = Some l \<longrightarrow> rec_ok p r n l)"

text \<open>
  The caches: a cached level mapping is the one a computation from scratch returns (for
  some recursion depth), and a cached bucket list is the one built from that mapping.
\<close>

definition fresh_levels :: "nat \<Rightarrow> Pipeline \<Rightarrow> error + int node_dict" where
  "fresh_levels d p = compute_levels_loop d p (dict_keys (pre_graph p)) []"

definition max_of_levels :: "int node_dict \<Rightarrow> int" where
  "max_of_levels levels = fold (\<lambda>(node, node_level) max_level. max node_level max_level) levels 0"

definition fresh_buckets :: "int node_dict \<Rightarrow> error + Node list list" where
  "fresh_buckets levels = fill_buckets (replicate (nat (max_of_levels levels + 1)) []) levels"

definition cache_inv :: "Pipeline \<Rightarrow> bool" where
  "cache_inv p \<longleftrightarrow>
     (\<forall>r. node_levels p = Some r \<longrightarrow> (\<exists>d. fresh_levels d p = Inr r)) \<and>
     (\<forall>b. level_nodes p = Some b \<longrightarrow> (\<exists>d r. fresh_levels d p = Inr r \<and> fresh_buckets r = Inr b))"

definition bucket_of :: "int node_dict \<Rightarrow> nat \<Rightarrow> Node list" where
  "bucket_of r i = map fst (filter (\<lambda>e. snd e = int i) r)"

section \<open>Properties\<close>

subsection \<open>Nodes: construction, cloning, equality\<close>

lemmas example_defs = cap_none_def node_A_def node_C_def node_C_clone_def Node_init_def
  pipeline_A_def pipeline_A_levelled_def pipeline_AC_def Pipeline_init_def

text \<open>
  What \<^verbatim>\<open>clone\<close> returns, for every node, every library \<^verbatim>\<open>clone\<close> and every id drawn:
  a node of the same class and name whose id is the drawn one. It is equal to the
  original under the docstrings' equality, and under \<^verbatim>\<open>Node.__eq__\<close> exactly when the
  drawn id coincides with the original's.
\<close>

lemma clone_result:
  "clone base_clone n fresh_id = Inr n' \<Longrightarrow>
     node_class n' = node_class n \<and> node_name n' = node_name n \<and> get_id n' = fresh_id \<and>
     node_eq_documented n' n \<and> (node_eq n' n \<longleftrightarrow> fresh_id = get_id n)"
  by (auto simp: clone_def EstimatorNode_init_def AndNode_init_def Node_init_def get_id_def
      node_eq_def node_eq_documented_def split: node_class.splits sum.splits)

text \<open>
  C2: the clone of a node is to retain the node's identity and name and be equal to it.
  The docstrings of \<^verbatim>\<open>Node\<close> say the same of equality (class and name). The code does
  otherwise: \<^verbatim>\<open>clone\<close> calls the constructor, \<^verbatim>\<open>Node.__init__\<close> draws a new id for
  every object, and \<^verbatim>\<open>Node.__eq__\<close> compares the ids. For the AndNode C (id 3),
  whatever the library's \<^verbatim>\<open>clone\<close> does, \<^verbatim>\<open>C.clone()\<close> with the id 4 drawn returns a
  node of the same class and name, equal to C as the docstrings define equality, whose
  id differs from that of C and which \<^verbatim>\<open>Node.__eq__\<close> finds unequal to C.
\<close>

theorem clone_breaks_documented_equality:
  "clone base_clone node_C 4 = Inr node_C_clone \<and>
   node_class node_C_clone = node_class node_C \<and>
   node_name node_C_clone = node_name node_C \<and>
   node_eq_documented node_C_clone node_C \<and>
   get_id node_C_clone \<noteq> get_id node_C \<and>
   \<not> node_eq node_C_clone node_C"
  by (simp add: clone_def AndNode_init_def get_id_def node_eq_def node_eq_documented_def
      example_defs)

text \<open>
  The same for an EstimatorNode whose estimator the library can clone; for the node A,
  whose object has no \<^verbatim>\<open>get_params\<close>, the library's \<^verbatim>\<open>clone\<close> raises and so does
  \<^verbatim>\<open>A.clone()\<close>.
\<close>

lemma clone_estimator_example:
  "clone example_base_clone node_E 7 = Inr node_E_clone \<and>
   node_eq_documented node_E_clone node_E \<and>
   get_id node_E_clone \<noteq> get_id node_E \<and>
   \<not> node_eq node_E_clone node_E \<and>
   clone example_base_clone node_A 2 = Inl TypeError"
  by (simp add: clone_def EstimatorNode_init_def example_base_clone_def cap_estimator_def
      node_E_def node_E_clone_def get_id_def node_eq_def node_eq_documented_def example_defs)

text \<open>
  C3 as stated fails. An object with no method at all satisfies neither contract, and
  both constructors return a node for it.
\<close>

theorem constructor_unchecked_counterexample:
  "\<not> fit_transform_contract cap_none \<and> EstimatorNode_init ''A'' cap_none 1 = Inr node_A \<and>
   \<not> multi_input_transform_contract cap_none \<and> AndNode_init ''C'' cap_none 3 = Inr node_C"
  by (simp add: fit_transform_contract_def multi_input_transform_contract_def
      EstimatorNode_init_def AndNode_init_def example_defs)

text \<open>
  C3 (amended): constructing an EstimatorNode or an AndNode never fails, whatever the
  capability object is. The constructor stores the object unchecked, and
  \<^verbatim>\<open>get_estimator\<close> (\<^verbatim>\<open>get_and_func\<close>) of the new node returns it.
\<close>

theorem constructors_never_raise:
  "(\<exists>n. EstimatorNode_init name obj fresh_id = Inr n \<and> get_estimator n = obj) \<and>
   (\<exists>n. AndNode_init name obj fresh_id = Inr n \<and> get_and_func n = obj)"
  by (simp add: EstimatorNode_init_def AndNode_init_def Node_init_def get_estimator_def
      get_and_func_def)

subsection \<open>Adding a node twice\<close>

text \<open>
  C4 as stated fails. \<^verbatim>\<open>add_node\<close> clears both level caches before it looks at the
  graph. In the pipeline holding \<open>node_A\<close> whose levels have been computed, adding
  \<open>node_A\<close> again turns the cached level mapping into \<^verbatim>\<open>None\<close>.
\<close>

theorem add_node_existing_counterexample:
  "compute_node_levels 1 pipeline_A = Inr ([(node_A, 0)], pipeline_A_levelled) \<and>
   dict_contains (pre_graph pipeline_A_levelled) node_A \<and>
   node_levels (add_node pipeline_A_levelled node_A) \<noteq> node_levels pipeline_A_levelled"
  by (simp add: compute_node_levels_def add_node_def dict_contains_def dict_keys_def
      get_preimage_def node_eq_def example_defs)

text \<open>
  C4 (amended): for a node \<open>n\<close> that is already a key of the graph, \<^verbatim>\<open>add_node(n)\<close>
  leaves \<open>pre_graph\<close> and \<open>post_graph\<close> unchanged and sets both level caches to absent
  (so the caches are unchanged only where they were absent before).
\<close>

theorem add_node_existing:
  "dict_contains (pre_graph p) n \<Longrightarrow>
     pre_graph (add_node p n) = pre_graph p \<and> post_graph (add_node p n) = post_graph p \<and>
     node_levels (add_node p n) = None \<and> level_nodes (add_node p n) = None"
  by (simp add: add_node_def)

text \<open>
  The amended C4 at the pipeline of the counterexample.
\<close>

theorem add_node_existing_witness:
  "dict_contains (pre_graph pipeline_A_levelled) node_A \<and>
   pre_graph (add_node pipeline_A_levelled node_A) = pre_graph pipeline_A_levelled \<and>
   post_graph (add_node pipeline_A_levelled node_A) = post_graph pipeline_A_levelled \<and>
   node_levels (add_node pipeline_A_levelled node_A) = None \<and>
   level_nodes (add_node pipeline_A_levelled node_A) = None"
proof -
  have h: "dict_contains (pre_graph pipeline_A_levelled) node_A"
    by (simp add: add_node_def dict_contains_def node_eq_def example_defs)
  show ?thesis
    using h add_node_existing [OF h] by simp
qed

subsection \<open>Edge queries\<close>

text \<open>
  C5: for every node \<open>n\<close> that is a key of the pipeline's \<open>post_graph\<close>,
  \<^verbatim>\<open>get_post_edges(n)\<close> returns a non-empty list (the one-element list holding the
  sentinel edge when \<open>n\<close> has no successors), and \<^verbatim>\<open>is_terminal(n)\<close> returns
  \<^verbatim>\<open>False\<close>, whether or not \<open>n\<close> has successors.
\<close>

theorem post_edges_never_empty:
  "dict_contains (post_graph p) n \<Longrightarrow>
     (\<exists>es. get_post_edges p n = Inr es \<and> es \<noteq> [] \<and>
        (dict_get (post_graph p) n = Some [] \<longrightarrow> es = [Edge_init (Some n) None])) \<and>
     is_terminal p n = Inr False"
  by (auto simp: dict_contains_def get_post_edges_def is_terminal_def)

text \<open>
  C5 at the pipeline holding only \<open>node_A\<close>, a node with no successors.
\<close>

theorem post_edges_never_empty_witness:
  "dict_contains (post_graph pipeline_A) node_A \<and>
   dict_get (post_graph pipeline_A) node_A = Some [] \<and>
   get_post_edges pipeline_A node_A = Inr [Edge_init (Some node_A) None] \<and>
   is_terminal pipeline_A node_A = Inr False"
proof -
  have h: "dict_contains (post_graph pipeline_A) node_A"
    and e: "dict_get (post_graph pipeline_A) node_A = Some []"
    by (simp_all add: add_node_def dict_contains_def node_eq_def example_defs)
  show ?thesis
    using h e post_edges_never_empty [OF h] by auto
qed

text \<open>
  C7: when the predecessor list of \<open>n\<close> is empty, \<^verbatim>\<open>get_pre_edges(n)\<close> returns exactly
  one edge, from the absent endpoint to \<open>n\<close>; otherwise it returns one edge \<open>(q, n)\<close> per
  entry \<open>q\<close> of the predecessor list, in list order. When the successor list of \<open>n\<close>
  is empty, \<^verbatim>\<open>get_post_edges(n)\<close> returns exactly one edge, from \<open>n\<close> to the absent
  endpoint.
\<close>

theorem edges_from_adjacency:
  "(dict_get (pre_graph p) n = Some pre \<longrightarrow>
      get_pre_edges p n =
        Inr (if pre = [] then [Edge_init None (Some n)]
             else map (\<lambda>q. Edge_init (Some q) (Some n)) pre)) \<and>
   (dict_get (post_graph p) n = Some [] \<longrightarrow>
      get_post_edges p n = Inr [Edge_init (Some n) None])"
  by (simp add: get_pre_edges_def get_post_edges_def)

text \<open>
  The example pipeline \<open>pipeline_AC\<close> is what \<^verbatim>\<open>add_edge(A, C)\<close> builds from the empty
  pipeline.
\<close>

lemma pipeline_AC_built: "add_edge Pipeline_init node_A node_C = Inr pipeline_AC"
  by (simp add: add_edge_def add_node_def dict_contains_def node_eq_def example_defs)

text \<open>
  C7 at \<open>pipeline_AC\<close>: \<open>node_C\<close> has one predecessor and no successor, \<open>node_A\<close> has
  no predecessor.
\<close>

theorem edges_from_adjacency_witness:
  "dict_get (pre_graph pipeline_AC) node_C = Some [node_A] \<and>
   get_pre_edges pipeline_AC node_C = Inr [Edge_init (Some node_A) (Some node_C)] \<and>
   dict_get (post_graph pipeline_AC) node_C = Some [] \<and>
   get_post_edges pipeline_AC node_C = Inr [Edge_init (Some node_C) None] \<and>
   dict_get (pre_graph pipeline_AC) node_A = Some [] \<and>
   get_pre_edges pipeline_AC node_A = Inr [Edge_init None (Some node_A)]"
proof -
  have h1: "dict_get (pre_graph pipeline_AC) node_C = Some [node_A]"
    and h2: "dict_get (post_graph pipeline_AC) node_C = Some []"
    and h3: "dict_get (pre_graph pipeline_AC) node_A = Some []"
    by (simp_all add: node_eq_def example_defs)
  show ?thesis
    using h1 h2 h3 edges_from_adjacency [of pipeline_AC node_C "[node_A]"]
      edges_from_adjacency [of pipeline_AC node_A "[]"]
    by simp
qed

subsection \<open>The empty pipeline\<close>

text \<open>
  C10: on the freshly constructed pipeline \<^verbatim>\<open>compute_max_level()\<close> returns 0 and
  \<^verbatim>\<open>get_nodes_by_level()\<close> returns the list holding one empty bucket, for every
  recursion depth available.
\<close>

theorem empty_pipeline_levels:
  "compute_max_level depth Pipeline_init = Inr (0, Pipeline_init\<lparr>node_levels := Some []\<rparr>) \<and>
   get_nodes_by_level depth Pipeline_init =
     Inr ([[]], Pipeline_init\<lparr>node_levels := Some [], level_nodes := Some [[]]\<rparr>)"
  by (simp add: compute_max_level_def get_nodes_by_level_def compute_node_levels_def
      dict_keys_def Pipeline_init_def)

subsection \<open>The cache tests as conditionals\<close>

lemma compute_node_levels_if:
  "compute_node_levels depth p =
     (if node_levels p \<noteq> None \<and> node_levels p \<noteq> Some []
      then (case node_levels p of Some cached \<Rightarrow> Inr (cached, p) | None \<Rightarrow> Inr ([], p))
      else
        (case compute_levels_loop depth p (dict_keys (pre_graph p)) [] of
           Inl e \<Rightarrow> Inl e
         | Inr result \<Rightarrow> Inr (result, p\<lparr>node_levels := Some result\<rparr>)))"
  by (simp add: compute_node_levels_def split: option.splits list.splits)

lemma get_nodes_by_level_if:
  "get_nodes_by_level depth p =
     (if level_nodes p \<noteq> None \<and> level_nodes p \<noteq> Some []
      then (case level_nodes p of Some cached \<Rightarrow> Inr (cached, p) | None \<Rightarrow> Inr ([], p))
      else
        (case compute_node_levels depth p of
           Inl e \<Rightarrow> Inl e
         | Inr (levels, p1) \<Rightarrow>
             (case compute_max_level depth p1 of
                Inl e \<Rightarrow> Inl e
              | Inr (max_level, p2) \<Rightarrow>
                  (let result_size = max_level + 1 in
                   case fill_buckets (replicate (nat result_size) []) levels of
                     Inl e \<Rightarrow> Inl e
                   | Inr result \<Rightarrow> Inr (result, p2\<lparr>level_nodes := Some result\<rparr>)))))"
  by (simp add: get_nodes_by_level_def split: option.splits list.splits)

subsection \<open>Dictionaries and the graph invariant\<close>

text \<open>
  Equal nodes have equal hashes, so the hash never hides an equal key from a lookup.
\<close>

lemma node_eq_hash: "node_eq a b \<Longrightarrow> node_hash a = node_hash b"
  by (simp add: node_eq_def node_hash_def)

lemma node_eq_key: "node_eq a b \<longleftrightarrow> key_of a = key_of b"
  by (auto simp: node_eq_def key_of_def)

lemma dict_get_cong: "node_eq k k' \<Longrightarrow> dict_get d k = dict_get d k'"
  by (induction d) (auto simp: node_eq_key)

lemma dict_get_set:
  "dict_get (dict_set d k v) k' = (if node_eq k k' then Some v else dict_get d k')"
  by (induction d) (auto simp: node_eq_key)

lemma dict_contains_keys: "dict_contains d k \<longleftrightarrow> key_of k \<in> key_of ` set (dict_keys d)"
  by (induction d) (auto simp: dict_contains_def dict_keys_def node_eq_key)

lemma dict_get_Some_entry:
  "dict_get d k = Some v \<Longrightarrow> \<exists>k'. (k', v) \<in> set d \<and> node_eq k' k"
  by (induction d) (auto split: if_splits)

lemma dict_get_entry:
  "distinct (map key_of (dict_keys d)) \<Longrightarrow> (k, v) \<in> set d \<Longrightarrow> dict_get d k = Some v"
  by (induction d) (auto simp: dict_keys_def node_eq_key rev_image_eqI)

lemma dict_keys_set:
  "dict_keys (dict_set d k v) = (if dict_contains d k then dict_keys d else dict_keys d @ [k])"
  by (induction d) (auto simp: dict_contains_def dict_keys_def split: if_splits)

lemma dict_set_entries:
  "(k', v') \<in> set (dict_set d k v) \<Longrightarrow> (k', v') \<in> set d \<or> v' = v"
  by (induction d) (auto split: if_splits)

lemma dict_contains_set: "dict_contains (dict_set d k v) k' \<longleftrightarrow> node_eq k k' \<or> dict_contains d k'"
  by (simp add: dict_contains_def dict_get_set)

lemma dict_contains_same_keys:
  "dict_keys d = dict_keys d' \<Longrightarrow> dict_contains d k = dict_contains d' k"
  by (simp add: dict_contains_keys)

lemma graph_inv_init: "graph_inv Pipeline_init"
  by (simp add: graph_inv_def Pipeline_init_def dict_keys_def closed_graph_def)

lemma closed_graph_set:
  assumes "closed_graph g" and "\<forall>q \<in> set v. node_eq k q \<or> dict_contains g q"
  shows "closed_graph (dict_set g k v)"
  unfolding closed_graph_def
proof (clarify)
  fix n pre q
  assume e: "(n, pre) \<in> set (dict_set g k v)" and q: "q \<in> set pre"
  from dict_set_entries [OF e] show "dict_contains (dict_set g k v) q"
  proof
    assume "(n, pre) \<in> set g"
    with assms(1) q have "dict_contains g q" by (auto simp: closed_graph_def)
    then show ?thesis by (simp add: dict_contains_set)
  next
    assume "pre = v"
    with assms(2) q show ?thesis by (auto simp: dict_contains_set)
  qed
qed

lemma graph_inv_cache [simp]:
  "graph_inv (p\<lparr>node_levels := x\<rparr>) = graph_inv p"
  "graph_inv (p\<lparr>level_nodes := y\<rparr>) = graph_inv p"
  by (simp_all add: graph_inv_def)

lemma graph_invD:
  assumes "graph_inv p"
  shows "dict_keys (post_graph p) = dict_keys (pre_graph p)"
    and "distinct (map key_of (dict_keys (pre_graph p)))"
    and "closed_graph (pre_graph p)"
  using assms unfolding graph_inv_def by blast+

lemma closed_graphD:
  "closed_graph g \<Longrightarrow> dict_get g n = Some pre \<Longrightarrow> q \<in> set pre \<Longrightarrow> dict_contains g q"
  using dict_get_Some_entry [of g n pre] by (fastforce simp: closed_graph_def)

lemma graph_inv_add_node:
  assumes inv: "graph_inv p"
  shows "graph_inv (add_node p n)"
proof (cases "dict_contains (pre_graph p) n")
  case True
  then show ?thesis using inv by (simp add: add_node_def)
next
  case False
  note i = graph_invD [OF inv]
  have same: "\<not> dict_contains (post_graph p) n"
    using False by (simp add: i(1) dict_contains_keys)
  have eq: "add_node p n =
      p\<lparr>node_levels := None, level_nodes := None,
        pre_graph := dict_set (pre_graph p) n [], post_graph := dict_set (post_graph p) n []\<rparr>"
    using False by (simp add: add_node_def)
  have k1: "dict_keys (dict_set (pre_graph p) n []) = dict_keys (pre_graph p) @ [n]"
    using False by (simp add: dict_keys_set)
  have k2: "dict_keys (dict_set (post_graph p) n []) = dict_keys (pre_graph p) @ [n]"
    using same by (simp add: dict_keys_set i(1))
  have "key_of n \<notin> key_of ` set (dict_keys (pre_graph p))"
    using False by (simp add: dict_contains_keys)
  then have d: "distinct (map key_of (dict_keys (pre_graph p) @ [n]))"
    using i(2) by simp
  have c: "closed_graph (dict_set (pre_graph p) n [])"
    by (rule closed_graph_set [OF i(3)]) simp
  show ?thesis
    unfolding eq graph_inv_def using k1 k2 d c by simp
qed

lemma add_node_contains: "dict_contains (pre_graph (add_node p n)) k \<longleftrightarrow> node_eq n k \<or> dict_contains (pre_graph p) k"
proof (cases "dict_contains (pre_graph p) n")
  case True
  then have "pre_graph (add_node p n) = pre_graph p" by (simp add: add_node_def)
  then show ?thesis using True by (auto simp: dict_contains_keys node_eq_key)
next
  case False
  then show ?thesis by (simp add: add_node_def dict_contains_set)
qed

lemma graph_inv_add_edge:
  assumes "graph_inv p"
  shows "\<exists>p'. add_edge p f t = Inr p' \<and> graph_inv p'"
proof -
  define p2 where "p2 = add_node (add_node p f) t"
  have inv2: "graph_inv p2"
    unfolding p2_def by (intro graph_inv_add_node assms)
  note i = graph_invD [OF inv2]
  have cf: "dict_contains (pre_graph p2) f" and ct: "dict_contains (pre_graph p2) t"
    unfolding p2_def by (simp_all add: add_node_contains node_eq_key)
  from ct obtain pre where pre: "dict_get (pre_graph p2) t = Some pre"
    by (auto simp: dict_contains_def)
  have "dict_contains (post_graph p2) f"
    using cf by (simp add: i(1) dict_contains_keys)
  then obtain post where post: "dict_get (post_graph p2) f = Some post"
    by (auto simp: dict_contains_def)
  define p4 where "p4 = p2\<lparr>pre_graph := dict_set (pre_graph p2) t (pre @ [f]),
    post_graph := dict_set (post_graph p2) f (post @ [t])\<rparr>"
  have res: "add_edge p f t = Inr p4"
    unfolding add_edge_def p2_def [symmetric] Let_def p4_def using pre post by simp
  have k3: "dict_keys (dict_set (pre_graph p2) t (pre @ [f])) = dict_keys (pre_graph p2)"
    using ct by (simp add: dict_keys_set)
  have k4: "dict_keys (dict_set (post_graph p2) f (post @ [t])) = dict_keys (pre_graph p2)"
    using post by (simp add: dict_keys_set dict_contains_def i(1))
  have "\<forall>q \<in> set (pre @ [f]). node_eq t q \<or> dict_contains (pre_graph p2) q"
    using closed_graphD [OF i(3) pre] cf by simp
  then have c: "closed_graph (dict_set (pre_graph p2) t (pre @ [f]))"
    by (rule closed_graph_set [OF i(3)])
  have "graph_inv p4"
    unfolding p4_def graph_inv_def by (simp add: k3 k4 c i(2))
  with res show ?thesis by blast
qed

lemma compute_node_levels_graph:
  "compute_node_levels d p = Inr (r, p') \<Longrightarrow> pre_graph p' = pre_graph p \<and> post_graph p' = post_graph p"
  by (auto simp: compute_node_levels_if split: if_splits option.splits sum.splits)

lemma compute_max_level_graph:
  "compute_max_level d p = Inr (m, p') \<Longrightarrow> pre_graph p' = pre_graph p \<and> post_graph p' = post_graph p"
  by (auto simp: compute_max_level_def split: sum.splits dest: compute_node_levels_graph)

lemma get_nodes_by_level_graph:
  "get_nodes_by_level d p = Inr (b, p') \<Longrightarrow> pre_graph p' = pre_graph p \<and> post_graph p' = post_graph p"
proof -
  assume a: "get_nodes_by_level d p = Inr (b, p')"
  show ?thesis
  proof (cases "level_nodes p \<noteq> None \<and> level_nodes p \<noteq> Some []")
    case True
    with a show ?thesis by (auto simp: get_nodes_by_level_if)
  next
    case False
    with a obtain levels p1 m p2 res where
      1: "compute_node_levels d p = Inr (levels, p1)" and
      2: "compute_max_level d p1 = Inr (m, p2)" and
      3: "p' = p2\<lparr>level_nodes := Some res\<rparr>"
      by (auto simp: get_nodes_by_level_if Let_def split: sum.splits)
    from compute_node_levels_graph [OF 1] compute_max_level_graph [OF 2] 3
    show ?thesis by simp
  qed
qed

lemma graph_inv_same_graph:
  "pre_graph p' = pre_graph p \<and> post_graph p' = post_graph p \<Longrightarrow> graph_inv p' = graph_inv p"
  by (simp add: graph_inv_def)

lemma reachable_graph_inv: "reachable p \<Longrightarrow> graph_inv p"
proof (induction rule: reachable.induct)
  case init
  show ?case by (rule graph_inv_init)
next
  case (add_node p n)
  then show ?case by (simp add: graph_inv_add_node)
next
  case (add_edge p from_n to_n p')
  then show ?case using graph_inv_add_edge [of p from_n to_n] by auto
next
  case (compute_node_levels p depth levels p')
  then show ?case using graph_inv_same_graph [OF compute_node_levels_graph, of depth p levels p'] by simp
next
  case (compute_max_level p depth max_level p')
  then show ?case using graph_inv_same_graph [OF compute_max_level_graph, of depth p max_level p'] by simp
next
  case (get_nodes_by_level p depth buckets p')
  then show ?case using graph_inv_same_graph [OF get_nodes_by_level_graph, of depth p buckets p'] by simp
qed

subsection \<open>The memo table of the level computation\<close>

lemma memo_extends_refl: "memo_extends r r"
  by (simp add: memo_extends_def)

lemma memo_extends_trans: "memo_extends r r1 \<Longrightarrow> memo_extends r1 r2 \<Longrightarrow> memo_extends r r2"
  by (simp add: memo_extends_def)

lemma levels_unique:
  "list_all2 (\<lambda>q lq. dict_get r q = Some lq) pre ls \<Longrightarrow>
   list_all2 (\<lambda>q lq. dict_get r q = Some lq) pre ls' \<Longrightarrow> ls = ls'"
proof (induction pre arbitrary: ls ls')
  case Nil
  then show ?case by simp
next
  case (Cons q pre)
  then show ?case by (auto simp: list_all2_Cons1)
qed

lemma levels_mono:
  "memo_extends r r' \<Longrightarrow> list_all2 (\<lambda>q lq. dict_get r q = Some lq) pre ls \<Longrightarrow>
   list_all2 (\<lambda>q lq. dict_get r' q = Some lq) pre ls"
  by (erule list_all2_mono) (simp add: memo_extends_def)

lemma rec_ok_unique: "rec_ok p r n l \<Longrightarrow> rec_ok p r n l' \<Longrightarrow> l = l'"
  unfolding rec_ok_def using levels_unique by (cases "dict_get (pre_graph p) n") fastforce+

lemma rec_ok_mono: "memo_extends r r' \<Longrightarrow> rec_ok p r n l \<Longrightarrow> rec_ok p r' n l"
  unfolding rec_ok_def using levels_mono by blast

lemma rec_ok_cong: "node_eq n n' \<Longrightarrow> rec_ok p r n l \<Longrightarrow> rec_ok p r n' l"
  unfolding rec_ok_def using dict_get_cong [of n n' "pre_graph p"] by simp

lemma node_eq_sym: "node_eq a b \<Longrightarrow> node_eq b a"
  by (simp add: node_eq_key)

lemma memo_set:
  assumes ok: "memo_ok p r" and rec: "rec_ok p r n l"
  shows "memo_ok p (dict_set r n l)" and "memo_extends r (dict_set r n l)"
proof -
  show ext: "memo_extends r (dict_set r n l)"
    unfolding memo_extends_def
  proof (intro allI impI)
    fix k lk
    assume k: "dict_get r k = Some lk"
    show "dict_get (dict_set r n l) k = Some lk"
    proof (cases "node_eq n k")
      case True
      from ok k have "rec_ok p r k lk" by (simp add: memo_ok_def)
      then have "rec_ok p r n lk" using True by (blast intro: rec_ok_cong node_eq_sym)
      with rec have "lk = l" by (blast intro: rec_ok_unique)
      with True show ?thesis by (simp add: dict_get_set)
    next
      case False
      with k show ?thesis by (simp add: dict_get_set)
    qed
  qed
  have d: "distinct (map key_of (dict_keys (dict_set r n l)))"
    using ok by (simp add: memo_ok_def dict_keys_set dict_contains_keys)
  have "rec_ok p (dict_set r n l) k lk" if k: "dict_get (dict_set r n l) k = Some lk" for k lk
  proof (cases "node_eq n k")
    case True
    with k have "lk = l" by (simp add: dict_get_set)
    with rec True show ?thesis by (blast intro: rec_ok_cong rec_ok_mono ext)
  next
    case False
    with k have "dict_get r k = Some lk" by (simp add: dict_get_set)
    with ok have "rec_ok p r k lk" by (simp add: memo_ok_def)
    then show ?thesis by (rule rec_ok_mono [OF ext])
  qed
  with d show "memo_ok p (dict_set r n l)" by (simp add: memo_ok_def)
qed

lemma compute_node_level_correct:
  "compute_node_level d p n r = Inr (l, r') \<Longrightarrow> memo_ok p r \<Longrightarrow>
     memo_ok p r' \<and> memo_extends r r' \<and> dict_get r' n = Some l"
  "compute_preimage_levels d p ps m r = Inr (m', r') \<Longrightarrow> memo_ok p r \<Longrightarrow>
     memo_ok p r' \<and> memo_extends r r' \<and>
     (\<exists>ls. list_all2 (\<lambda>q lq. dict_get r' q = Some lq) ps ls \<and> m' = fold max ls m)"
proof (induction d p n r and d p ps m r arbitrary: l r' and m' r'
    rule: compute_node_level_compute_preimage_levels.induct)
  case (1 p node result)
  then show ?case by simp
next
  case (2 depth p node result)
  show ?case
  proof (cases "dict_get result node")
    case (Some level)
    with "2.prems" show ?thesis by (auto simp: memo_extends_refl)
  next
    case None
    with "2.prems"(1) obtain pre where pre: "dict_get (pre_graph p) node = Some pre"
      and gp: "get_preimage p node = Inr pre"
      by (auto simp: get_preimage_def split: option.splits)
    show ?thesis
    proof (cases "pre = []")
      case True
      with "2.prems"(1) None gp have res: "l = 0" "r' = dict_set result node 0"
        by auto
      have "rec_ok p result node 0"
        using pre True by (simp add: rec_ok_def)
      from memo_set [OF "2.prems"(2) this] show ?thesis
        by (simp add: res dict_get_set node_eq_key)
    next
      case False
      with "2.prems"(1) None gp obtain max_level r1 where
        loop: "compute_preimage_levels depth p pre 0 result = Inr (max_level, r1)" and
        res: "l = max_level + 1" "r' = dict_set r1 node (max_level + 1)"
        by (auto split: sum.splits)
      from "2.IH" [OF None gp False loop "2.prems"(2)] obtain ls where
        ok1: "memo_ok p r1" and ext1: "memo_extends result r1" and
        ls: "list_all2 (\<lambda>q lq. dict_get r1 q = Some lq) pre ls" and m: "max_level = fold max ls 0"
        by blast
      have "rec_ok p r1 node (max_level + 1)"
        using pre False ls m by (auto simp: rec_ok_def)
      from memo_set [OF ok1 this] ext1 show ?thesis
        by (auto simp: res dict_get_set node_eq_key intro: memo_extends_trans)
    qed
  qed
next
  case (3 depth p max_level result)
  then show ?case by (auto simp: memo_extends_refl)
next
  case (4 depth p p_node rest max_level result)
  from "4.prems"(1) obtain level r1 where
    first: "compute_node_level depth p p_node result = Inr (level, r1)" and
    rest: "compute_preimage_levels depth p rest (max level max_level) r1 = Inr (m', r')"
    by (auto split: sum.splits)
  from "4.IH"(1) [OF first "4.prems"(2)] have
    ok1: "memo_ok p r1" and ext1: "memo_extends result r1" and g1: "dict_get r1 p_node = Some level"
    by blast+
  from "4.IH"(2) [OF first refl rest ok1] obtain ls where
    ok': "memo_ok p r'" and ext': "memo_extends r1 r'" and
    ls: "list_all2 (\<lambda>q lq. dict_get r' q = Some lq) rest ls" and
    m': "m' = fold max ls (max level max_level)"
    by blast
  from ext' g1 have "dict_get r' p_node = Some level" by (simp add: memo_extends_def)
  with ls have "list_all2 (\<lambda>q lq. dict_get r' q = Some lq) (p_node # rest) (level # ls)"
    by simp
  moreover have "m' = fold max (level # ls) max_level" using m' by simp
  ultimately show ?case
    using ok' ext1 ext' by (blast intro: memo_extends_trans)
qed

lemma compute_levels_loop_correct:
  "compute_levels_loop d p ks r = Inr r' \<Longrightarrow> memo_ok p r \<Longrightarrow>
     memo_ok p r' \<and> memo_extends r r' \<and> (\<forall>k \<in> set ks. dict_contains r' k)"
proof (induction ks arbitrary: r)
  case Nil
  then show ?case by (simp add: memo_extends_refl)
next
  case (Cons k ks)
  from Cons.prems(1) obtain level r1 where
    first: "compute_node_level d p k r = Inr (level, r1)" and
    rest: "compute_levels_loop d p ks (dict_set r1 k level) = Inr r'"
    by (auto split: sum.splits)
  from compute_node_level_correct(1) [OF first Cons.prems(2)] have
    ok1: "memo_ok p r1" and ext1: "memo_extends r r1" and g1: "dict_get r1 k = Some level"
    by blast+
  from ok1 g1 have "rec_ok p r1 k level" by (simp add: memo_ok_def)
  note s = memo_set [OF ok1 this]
  from Cons.IH [OF rest s(1)] have
    ok': "memo_ok p r'" and ext': "memo_extends (dict_set r1 k level) r'" and
    all: "\<forall>k \<in> set ks. dict_contains r' k"
    by blast+
  have "dict_get (dict_set r1 k level) k = Some level"
    by (simp add: dict_get_set node_eq_key)
  with ext' have "dict_contains r' k" by (simp add: memo_extends_def dict_contains_def)
  with ok' all ext1 s(2) ext' show ?case
    by (auto intro: memo_extends_trans)
qed

lemma memo_ok_empty: "memo_ok p []"
  by (simp add: memo_ok_def dict_keys_def)

lemma compute_node_level_mono:
  "compute_node_level d p n r = Inr x \<Longrightarrow> d \<le> d' \<Longrightarrow> compute_node_level d' p n r = Inr x"
  "compute_preimage_levels d p ps m r = Inr x \<Longrightarrow> d \<le> d' \<Longrightarrow>
     compute_preimage_levels d' p ps m r = Inr x"
proof (induction d p n r and d p ps m r arbitrary: x d' and x d'
    rule: compute_node_level_compute_preimage_levels.induct)
  case (1 p node result)
  then show ?case by simp
next
  case (2 depth p node result)
  from "2.prems"(2) obtain e where d': "d' = Suc e" and le: "depth \<le> e"
    by (cases d') auto
  show ?case
  proof (cases "dict_get result node")
    case (Some level)
    with "2.prems"(1) show ?thesis by (simp add: d')
  next
    case None
    with "2.prems"(1) obtain pre where gp: "get_preimage p node = Inr pre"
      by (auto split: sum.splits)
    show ?thesis
    proof (cases "pre = []")
      case True
      with "2.prems"(1) None gp show ?thesis by (simp add: d')
    next
      case False
      with "2.prems"(1) None gp obtain y where
        loop: "compute_preimage_levels depth p pre 0 result = Inr y"
        by (auto split: sum.splits)
      from "2.IH" [OF None gp False loop le]
      have "compute_preimage_levels e p pre 0 result = Inr y" .
      with "2.prems"(1) None gp False loop show ?thesis by (simp add: d')
    qed
  qed
next
  case (3 depth p max_level result)
  then show ?case by simp
next
  case (4 depth p p_node rest max_level result)
  from "4.prems"(1) obtain level r1 where
    first: "compute_node_level depth p p_node result = Inr (level, r1)" and
    rest: "compute_preimage_levels depth p rest (max level max_level) r1 = Inr x"
    by (auto split: sum.splits)
  from "4.IH"(1) [OF first "4.prems"(2)] "4.IH"(2) [OF first refl rest "4.prems"(2)]
  show ?case by simp
qed

lemma compute_levels_loop_mono:
  "compute_levels_loop d p ks r = Inr r' \<Longrightarrow> d \<le> d' \<Longrightarrow> compute_levels_loop d' p ks r = Inr r'"
proof (induction ks arbitrary: r)
  case Nil
  then show ?case by simp
next
  case (Cons k ks)
  from Cons.prems(1) obtain level r1 where
    first: "compute_node_level d p k r = Inr (level, r1)" and
    rest: "compute_levels_loop d p ks (dict_set r1 k level) = Inr r'"
    by (auto split: sum.splits)
  from compute_node_level_mono(1) [OF first Cons.prems(2)] Cons.IH [OF rest Cons.prems(2)]
  show ?case by simp
qed

lemma compute_node_level_graph_only:
  "pre_graph p' = pre_graph p \<Longrightarrow> compute_node_level d p' n r = compute_node_level d p n r"
  "pre_graph p' = pre_graph p \<Longrightarrow>
     compute_preimage_levels d p' ps m r = compute_preimage_levels d p ps m r"
proof (induction d p n r and d p ps m r
    rule: compute_node_level_compute_preimage_levels.induct)
  case (1 p node result)
  then show ?case by simp
next
  case (2 depth p node result)
  have gp: "get_preimage p' node = get_preimage p node"
    using "2.prems" by (simp add: get_preimage_def)
  show ?case
    using "2.IH" "2.prems" by (simp add: gp split: option.splits sum.splits)
next
  case (3 depth p max_level result)
  then show ?case by simp
next
  case (4 depth p p_node rest max_level result)
  then show ?case by (simp split: sum.splits)
qed

lemma compute_levels_loop_graph_only:
  assumes "pre_graph p' = pre_graph p"
  shows "compute_levels_loop d p' ks r = compute_levels_loop d p ks r"
proof (induction ks arbitrary: r)
  case Nil
  show ?case by simp
next
  case (Cons k ks)
  show ?case
    using compute_node_level_graph_only(1) [OF assms, of d k r] Cons.IH
    by (simp split: sum.splits)
qed

subsection \<open>Termination on acyclic graphs and the caches\<close>

lemma edges_member:
  assumes "dict_get g n = Some pre" and "q \<in> set pre"
  shows "(key_of q, key_of n) \<in> edges g"
proof -
  from dict_get_Some_entry [OF assms(1)] obtain k where "(k, pre) \<in> set g" and "node_eq k n"
    by blast
  then have "key_of k = key_of n" and "(k, pre) \<in> set g" by (simp_all add: node_eq_key)
  with assms(2) show ?thesis
    unfolding edges_def by (intro UN_I [of "(k, pre)"]) auto
qed

lemma compute_preimage_levels_total:
  "(\<And>q r. q \<in> set ps \<Longrightarrow> \<exists>x. compute_node_level d p q r = Inr x) \<Longrightarrow>
     \<exists>x. compute_preimage_levels d p ps m r = Inr x"
proof (induction ps arbitrary: m r)
  case Nil
  show ?case by simp
next
  case (Cons q ps)
  from Cons.prems [of q r] obtain level r1 where
    first: "compute_node_level d p q r = Inr (level, r1)" by auto
  from Cons.IH [of "max level m" r1] Cons.prems obtain x where
    "compute_preimage_levels d p ps (max level m) r1 = Inr x" by auto
  with first show ?case by simp
qed

lemma compute_node_level_total:
  assumes cl: "closed_graph (pre_graph p)" and ac: "acyclic (edges (pre_graph p))"
  shows "dict_contains (pre_graph p) n \<Longrightarrow>
         \<forall>s \<in> S. (key_of n, s) \<in> (edges (pre_graph p))\<^sup>+ \<Longrightarrow>
         card (key_of ` set (dict_keys (pre_graph p)) - S) \<le> d \<Longrightarrow>
         \<exists>x. compute_node_level d p n r = Inr x"
proof (induction d arbitrary: n S r)
  case 0
  have "key_of n \<notin> S"
    using "0.prems"(2) ac unfolding acyclic_def by blast
  moreover have "key_of n \<in> key_of ` set (dict_keys (pre_graph p))"
    using "0.prems"(1) by (simp add: dict_contains_keys)
  ultimately have "key_of ` set (dict_keys (pre_graph p)) - S \<noteq> {}" by blast
  moreover have "finite (key_of ` set (dict_keys (pre_graph p)) - S)" by simp
  ultimately show ?case using "0.prems"(3) by simp
next
  case (Suc d)
  let ?K = "key_of ` set (dict_keys (pre_graph p))"
  let ?E = "edges (pre_graph p)"
  from Suc.prems(1) obtain pre where pre: "dict_get (pre_graph p) n = Some pre"
    by (auto simp: dict_contains_def)
  have nS: "key_of n \<notin> S"
    using Suc.prems(2) ac unfolding acyclic_def by blast
  have nK: "key_of n \<in> ?K"
    using Suc.prems(1) by (simp add: dict_contains_keys)
  have eq: "?K - insert (key_of n) S = (?K - S) - {key_of n}" by blast
  have "key_of n \<in> ?K - S" using nS nK by blast
  then have "card ((?K - S) - {key_of n}) < card (?K - S)"
    by (intro card_Diff1_less) simp_all
  then have "card (?K - insert (key_of n) S) < card (?K - S)"
    by (simp only: eq)
  with Suc.prems(3) have card: "card (?K - insert (key_of n) S) \<le> d" by simp
  have step: "\<exists>x. compute_node_level d p q r' = Inr x" if q: "q \<in> set pre" for q r'
  proof (rule Suc.IH [of q "insert (key_of n) S"])
    show "dict_contains (pre_graph p) q"
      using closed_graphD [OF cl pre q] .
    have e: "(key_of q, key_of n) \<in> ?E" using edges_member [OF pre q] .
    show "\<forall>s \<in> insert (key_of n) S. (key_of q, s) \<in> ?E\<^sup>+"
      using e Suc.prems(2) by (auto intro: trancl_into_trancl2)
    show "card (?K - insert (key_of n) S) \<le> d" using card .
  qed
  from compute_preimage_levels_total [of pre d p 0 r] step obtain x where
    "compute_preimage_levels d p pre 0 r = Inr x" by blast
  then show ?case
    using pre by (cases x) (auto simp: get_preimage_def split: option.splits)
qed

lemma compute_levels_loop_total:
  "(\<And>k r. k \<in> set ks \<Longrightarrow> \<exists>x. compute_node_level d p k r = Inr x) \<Longrightarrow>
     \<exists>r'. compute_levels_loop d p ks r = Inr r'"
proof (induction ks arbitrary: r)
  case Nil
  show ?case by simp
next
  case (Cons k ks)
  from Cons.prems [of k r] obtain level r1 where
    first: "compute_node_level d p k r = Inr (level, r1)" by auto
  from Cons.IH [of "dict_set r1 k level"] Cons.prems obtain r' where
    "compute_levels_loop d p ks (dict_set r1 k level) = Inr r'" by auto
  with first show ?case by simp
qed

lemma fresh_levels_total:
  assumes "graph_inv p" and "acyclic (edges (pre_graph p))" and "length (pre_graph p) \<le> d"
  shows "\<exists>r. fresh_levels d p = Inr r"
  unfolding fresh_levels_def
proof (rule compute_levels_loop_total)
  fix k r
  assume "k \<in> set (dict_keys (pre_graph p))"
  then have c: "dict_contains (pre_graph p) k" by (auto simp: dict_contains_keys)
  have "card (key_of ` set (dict_keys (pre_graph p))) \<le> length (dict_keys (pre_graph p))"
    by (metis card_image_le card_length le_trans List.finite_set)
  then have "card (key_of ` set (dict_keys (pre_graph p)) - {}) \<le> d"
    using assms(3) by (simp add: dict_keys_def)
  from compute_node_level_total [OF graph_invD(3) [OF assms(1)] assms(2) c _ this]
  show "\<exists>x. compute_node_level d p k r = Inr x" by simp
qed

lemma fresh_levels_mono: "fresh_levels d p = Inr r \<Longrightarrow> d \<le> d' \<Longrightarrow> fresh_levels d' p = Inr r"
  unfolding fresh_levels_def by (rule compute_levels_loop_mono)

lemma fresh_levels_unique: "fresh_levels d p = Inr r \<Longrightarrow> fresh_levels d' p = Inr r' \<Longrightarrow> r = r'"
  using fresh_levels_mono [of d p r "max d d'"] fresh_levels_mono [of d' p r' "max d d'"] by simp

lemma fresh_levels_graph_only:
  "pre_graph p' = pre_graph p \<Longrightarrow> fresh_levels d p' = fresh_levels d p"
  using compute_levels_loop_graph_only [of p' p d "dict_keys (pre_graph p)" "[]"]
  by (simp add: fresh_levels_def)

lemma fresh_levels_ok:
  assumes "fresh_levels d p = Inr r"
  shows "memo_ok p r" and "\<And>n. dict_contains (pre_graph p) n \<Longrightarrow> dict_contains r n"
proof -
  from compute_levels_loop_correct [OF assms [unfolded fresh_levels_def] memo_ok_empty]
  have ok: "memo_ok p r" and all: "\<forall>k \<in> set (dict_keys (pre_graph p)). dict_contains r k"
    by blast+
  show "memo_ok p r" by (rule ok)
  fix n
  assume "dict_contains (pre_graph p) n"
  then obtain k where "k \<in> set (dict_keys (pre_graph p))" and "key_of k = key_of n"
    by (auto simp: dict_contains_keys)
  with all have "dict_contains r k" and "node_eq k n" by (simp_all add: node_eq_key)
  then show "dict_contains r n"
    using dict_get_cong [of k n r] by (simp add: dict_contains_def)
qed

lemma fresh_levels_empty:
  assumes "fresh_levels d p = Inr []"
  shows "pre_graph p = []"
proof (cases "pre_graph p")
  case Nil
  then show ?thesis .
next
  case (Cons e g)
  then have "dict_contains (pre_graph p) (fst e)"
    by (cases e) (simp add: dict_contains_def node_eq_key)
  from fresh_levels_ok(2) [OF assms this] show ?thesis by (simp add: dict_contains_def)
qed

lemma compute_node_levels_cases:
  assumes "compute_node_levels d p = Inr (r, p')"
  shows "(node_levels p = Some r \<and> r \<noteq> [] \<and> p' = p) \<or>
         ((node_levels p = None \<or> node_levels p = Some []) \<and> fresh_levels d p = Inr r \<and>
          p' = p\<lparr>node_levels := Some r\<rparr>)"
  using assms
  by (auto simp: compute_node_levels_if fresh_levels_def split: if_splits option.splits sum.splits)

lemma compute_node_levels_fresh:
  assumes "compute_node_levels d p = Inr (r, p')" and "cache_inv p"
  shows "\<exists>d'. fresh_levels d' p = Inr r" and "cache_inv p'" and "node_levels p' = Some r"
    and "pre_graph p' = pre_graph p" and "level_nodes p' = level_nodes p"
proof -
  from compute_node_levels_cases [OF assms(1)]
  have "(\<exists>d'. fresh_levels d' p = Inr r) \<and> cache_inv p' \<and> node_levels p' = Some r \<and>
        pre_graph p' = pre_graph p \<and> level_nodes p' = level_nodes p"
  proof
    assume "node_levels p = Some r \<and> r \<noteq> [] \<and> p' = p"
    with assms(2) show ?thesis by (auto simp: cache_inv_def)
  next
    assume a: "(node_levels p = None \<or> node_levels p = Some []) \<and> fresh_levels d p = Inr r \<and>
      p' = p\<lparr>node_levels := Some r\<rparr>"
    then have g: "pre_graph p' = pre_graph p" by simp
    have "cache_inv p'"
      using assms(2) a unfolding cache_inv_def fresh_levels_graph_only [OF g]
      by auto
    with a show ?thesis by auto
  qed
  then show "\<exists>d'. fresh_levels d' p = Inr r" and "cache_inv p'" and "node_levels p' = Some r"
    and "pre_graph p' = pre_graph p" and "level_nodes p' = level_nodes p"
    by blast+
qed

lemma compute_node_levels_again:
  assumes "compute_node_levels d p = Inr (r, p')" and "cache_inv p"
  shows "compute_node_levels d' p' = Inr (r, p')"
proof (cases "r = []")
  case False
  with compute_node_levels_fresh(3) [OF assms] show ?thesis
    by (simp add: compute_node_levels_if)
next
  case True
  from compute_node_levels_fresh [OF assms] obtain d0 where
    f: "fresh_levels d0 p = Inr []" and nl: "node_levels p' = Some []" and
    g: "pre_graph p' = pre_graph p"
    using True by auto
  from fresh_levels_empty [OF f] g have "pre_graph p' = []" by simp
  with nl True show ?thesis
    by (simp add: compute_node_levels_if dict_keys_def)
qed

lemma compute_node_levels_total:
  assumes "graph_inv p" and "cache_inv p" and "acyclic (edges (pre_graph p))"
    and "length (pre_graph p) \<le> d"
  shows "\<exists>r p'. compute_node_levels d p = Inr (r, p')"
proof -
  from fresh_levels_total [OF assms(1,3,4)] obtain r where "fresh_levels d p = Inr r" by blast
  then show ?thesis
    by (auto simp: compute_node_levels_if fresh_levels_def split: option.splits)
qed

subsection \<open>Buckets\<close>

lemma fold_max_ge: "(m::int) \<le> fold max ls m"
proof (induction ls arbitrary: m)
  case Nil
  show ?case by simp
next
  case (Cons a ls)
  have "m \<le> max a m" by simp
  also have "\<dots> \<le> fold max ls (max a m)" by (rule Cons.IH)
  finally show ?case by simp
qed

lemma fold_max_Max:
  assumes "ls \<noteq> []" and "\<forall>x \<in> set ls. (0::int) \<le> x"
  shows "fold max ls 0 = Max (set ls)"
proof -
  from assms(1) obtain a as where ls: "ls = a # as" by (cases ls) auto
  have "fold max ls 0 = fold max as (max a 0)" by (simp add: ls)
  also have "max a 0 = a" using assms(2) by (simp add: ls)
  also have "fold max as a = Max (set (a # as))" by (simp only: Max.set_eq_fold)
  finally show ?thesis by (simp add: ls)
qed

lemma rec_ok_nonneg: "rec_ok p r n l \<Longrightarrow> 0 \<le> l"
proof -
  assume "rec_ok p r n l"
  then obtain pre where "pre = [] \<longrightarrow> l = 0"
    and "pre \<noteq> [] \<longrightarrow> (\<exists>ls. l = 1 + fold max ls 0)"
    unfolding rec_ok_def by blast
  then show ?thesis
    using fold_max_ge [of 0] by (cases "pre = []") auto
qed

lemma memo_ok_get_nonneg: "memo_ok p r \<Longrightarrow> dict_get r n = Some l \<Longrightarrow> 0 \<le> l"
  unfolding memo_ok_def using rec_ok_nonneg by blast

lemma memo_ok_entry:
  assumes "memo_ok p r" and "(n, l) \<in> set r"
  shows "dict_get r n = Some l" and "0 \<le> l" and "dict_contains (pre_graph p) n"
proof -
  from assms show g: "dict_get r n = Some l"
    by (simp add: memo_ok_def dict_get_entry)
  with assms(1) show "0 \<le> l" by (rule memo_ok_get_nonneg)
  from assms(1) g have "rec_ok p r n l" by (simp add: memo_ok_def)
  then show "dict_contains (pre_graph p) n"
    by (auto simp: rec_ok_def dict_contains_def)
qed

lemma fold_levels_ge:
  "m \<le> fold (\<lambda>(node, node_level) max_level. max node_level max_level) r (m::int)"
proof (induction r arbitrary: m)
  case Nil
  show ?case by simp
next
  case (Cons e r)
  obtain n l where e: "e = (n, l)" by (cases e)
  have "m \<le> max l m" by simp
  also have "\<dots> \<le> fold (\<lambda>(node, node_level) max_level. max node_level max_level) r (max l m)"
    by (rule Cons.IH)
  finally show ?case by (simp add: e)
qed

lemma fold_levels_bound:
  "(n, l) \<in> set r \<Longrightarrow>
     l \<le> fold (\<lambda>(node, node_level) max_level. max node_level max_level) r (m::int)"
proof (induction r arbitrary: m)
  case Nil
  then show ?case by simp
next
  case (Cons e r)
  obtain n' l' where e: "e = (n', l')" by (cases e)
  show ?case
  proof (cases "(n, l) = e")
    case True
    have "l \<le> max l m" by simp
    also have "\<dots> \<le> fold (\<lambda>(node, node_level) max_level. max node_level max_level) r (max l m)"
      by (rule fold_levels_ge)
    finally show ?thesis using True [symmetric] by simp
  next
    case False
    with Cons.prems have "(n, l) \<in> set r" by simp
    from Cons.IH [OF this, of "max l' m"] show ?thesis by (simp add: e)
  qed
qed

lemma max_of_levels_bound: "(n, l) \<in> set r \<Longrightarrow> l \<le> max_of_levels r"
  unfolding max_of_levels_def by (rule fold_levels_bound)

lemma max_of_levels_nonneg: "0 \<le> max_of_levels r"
  unfolding max_of_levels_def by (rule fold_levels_ge)

lemma fill_buckets_char:
  "\<forall>(n, l) \<in> set r. 0 \<le> l \<and> l < int (length bs) \<Longrightarrow>
     fill_buckets bs r = Inr (map (\<lambda>i. bs ! i @ bucket_of r i) [0..<length bs])"
proof (induction r arbitrary: bs)
  case Nil
  show ?case by (simp add: bucket_of_def map_nth)
next
  case (Cons e r)
  obtain n l where e: "e = (n, l)" by (cases e)
  from Cons.prems have l: "0 \<le> l" "l < int (length bs)" and nl: "nat l < length bs"
    by (auto simp: e)
  define bs1 where "bs1 = bs[nat l := bs ! nat l @ [n]]"
  have app: "bucket_append bs l n = Inr bs1"
    using l by (simp add: bucket_append_def bs1_def Let_def)
  have len: "length bs1 = length bs" by (simp add: bs1_def)
  have "\<forall>(n, l) \<in> set r. 0 \<le> l \<and> l < int (length bs1)"
    using Cons.prems by (simp add: len)
  from Cons.IH [OF this]
  have "fill_buckets bs1 r = Inr (map (\<lambda>i. bs1 ! i @ bucket_of r i) [0..<length bs])"
    by (simp add: len)
  moreover have "bs1 ! i @ bucket_of r i = bs ! i @ bucket_of (e # r) i" if "i < length bs" for i
  proof (cases "i = nat l")
    case True
    then have "l = int i" using l by simp
    then show ?thesis using that by (simp add: bs1_def bucket_of_def e)
  next
    case False
    then have "l \<noteq> int i" by auto
    then show ?thesis using that False by (simp add: bs1_def bucket_of_def e)
  qed
  then have "map (\<lambda>i. bs1 ! i @ bucket_of r i) [0..<length bs] =
             map (\<lambda>i. bs ! i @ bucket_of (e # r) i) [0..<length bs]"
    by simp
  ultimately show ?case by (simp add: e app)
qed

lemma fresh_buckets_char:
  assumes "memo_ok p r"
  shows "fresh_buckets r = Inr (map (bucket_of r) [0..<nat (max_of_levels r + 1)])"
proof -
  have "\<forall>(n, l) \<in> set r. 0 \<le> l \<and> l < int (length (replicate (nat (max_of_levels r + 1)) ([]::Node list)))"
    using memo_ok_entry(2) [OF assms] max_of_levels_bound [of _ _ r] max_of_levels_nonneg [of r]
    by fastforce
  from fill_buckets_char [OF this] show ?thesis
    by (simp add: fresh_buckets_def cong: map_cong)
qed

lemma compute_max_level_eq:
  "compute_max_level d p =
     (case compute_node_levels d p of
        Inl e \<Rightarrow> Inl e | Inr (levels, p') \<Rightarrow> Inr (max_of_levels levels, p'))"
  by (simp add: compute_max_level_def max_of_levels_def split: sum.splits)

lemma compute_max_level_fresh:
  assumes "compute_max_level d p = Inr (m, p')" and "cache_inv p"
  shows "cache_inv p'"
proof -
  from assms(1) obtain r where "compute_node_levels d p = Inr (r, p')"
    by (auto simp: compute_max_level_eq split: sum.splits)
  from compute_node_levels_fresh(2) [OF this assms(2)] show ?thesis .
qed

lemma get_nodes_by_level_uncached:
  assumes nc: "level_nodes p = None \<or> level_nodes p = Some []" and inv: "cache_inv p"
    and lv: "compute_node_levels d p = Inr (r, p1)"
  shows "get_nodes_by_level d p =
     (case fresh_buckets r of Inl e \<Rightarrow> Inl e | Inr b \<Rightarrow> Inr (b, p1\<lparr>level_nodes := Some b\<rparr>))"
proof -
  from compute_node_levels_again [OF lv inv, of d]
  have "compute_max_level d p1 = Inr (max_of_levels r, p1)"
    by (simp add: compute_max_level_eq)
  with nc lv show ?thesis
    by (auto simp: get_nodes_by_level_if fresh_buckets_def Let_def split: sum.splits)
qed

lemma get_nodes_by_level_fresh:
  assumes res: "get_nodes_by_level d p = Inr (b, p')" and inv: "cache_inv p"
  shows "\<exists>d' r. fresh_levels d' p = Inr r \<and> fresh_buckets r = Inr b" and "cache_inv p'"
proof -
  have "(\<exists>d' r. fresh_levels d' p = Inr r \<and> fresh_buckets r = Inr b) \<and> cache_inv p'"
  proof (cases "level_nodes p = None \<or> level_nodes p = Some []")
    case False
    with res have "level_nodes p = Some b" and "p' = p"
      by (auto simp: get_nodes_by_level_if)
    with inv show ?thesis by (auto simp: cache_inv_def)
  next
    case True
    from res True obtain r p1 where lv: "compute_node_levels d p = Inr (r, p1)"
      by (auto simp: get_nodes_by_level_if split: sum.splits if_splits)
    from get_nodes_by_level_uncached [OF True inv lv] res
    have fb: "fresh_buckets r = Inr b" and p': "p' = p1\<lparr>level_nodes := Some b\<rparr>"
      by (auto split: sum.splits)
    from compute_node_levels_fresh [OF lv inv] obtain d' where
      f: "fresh_levels d' p = Inr r" and inv1: "cache_inv p1" and g: "pre_graph p1 = pre_graph p"
      by blast
    have g': "pre_graph p' = pre_graph p" by (simp add: p' g)
    have g1: "pre_graph p' = pre_graph p1" by (simp add: p')
    have "cache_inv p'"
      unfolding cache_inv_def fresh_levels_graph_only [OF g']
      using inv1 [unfolded cache_inv_def fresh_levels_graph_only [OF g]] f fb
      by (auto simp: p')
    with f fb show ?thesis by blast
  qed
  then show "\<exists>d' r. fresh_levels d' p = Inr r \<and> fresh_buckets r = Inr b" and "cache_inv p'"
    by blast+
qed

lemma add_node_caches: "node_levels (add_node p n) = None \<and> level_nodes (add_node p n) = None"
  by (simp add: add_node_def Let_def)

lemma add_edge_caches:
  "add_edge p f t = Inr p' \<Longrightarrow> node_levels p' = None \<and> level_nodes p' = None"
  using add_node_caches [of "add_node p f" t]
  by (auto simp: add_edge_def Let_def split: option.splits)

lemma cache_inv_no_cache: "node_levels p = None \<and> level_nodes p = None \<Longrightarrow> cache_inv p"
  by (simp add: cache_inv_def)

lemma reachable_cache_inv: "reachable p \<Longrightarrow> cache_inv p"
proof (induction rule: reachable.induct)
  case init
  show ?case by (simp add: cache_inv_def Pipeline_init_def)
next
  case (add_node p n)
  show ?case by (rule cache_inv_no_cache [OF add_node_caches])
next
  case (add_edge p from_n to_n p')
  then show ?case using cache_inv_no_cache [OF add_edge_caches] by blast
next
  case (compute_node_levels p depth levels p')
  then show ?case using compute_node_levels_fresh(2) by blast
next
  case (compute_max_level p depth max_level p')
  then show ?case using compute_max_level_fresh by blast
next
  case (get_nodes_by_level p depth buckets p')
  then show ?case using get_nodes_by_level_fresh(2) by blast
qed

subsection \<open>Levels of a reachable acyclic pipeline\<close>

text \<open>
  The example of the specification's first scenario: nodes A, B, C with the edges
  A to C and B to C. It is built by two \<^verbatim>\<open>add_edge\<close> calls, its edge relation is acyclic,
  its levels are A: 0, B: 0, C: 1 and its buckets are [A, B] and [C].
\<close>

lemma pipeline_ABC_built: "add_edge pipeline_AC node_B node_C = Inr pipeline_ABC"
  by (simp add: add_edge_def add_node_def dict_contains_def node_eq_def example_defs
      node_B_def pipeline_ABC_def)

lemma reachable_ABC: "reachable pipeline_ABC"
  by (rule reachable.add_edge [OF reachable.add_edge [OF reachable.init pipeline_AC_built]
        pipeline_ABC_built])

lemma acyclic_ABC: "acyclic (edges (pre_graph pipeline_ABC))"
proof (rule acyclicI_order [where f = "\<lambda>k. if k = key_of node_C then (0::nat) else 1"])
  fix a b
  assume "(a, b) \<in> edges (pre_graph pipeline_ABC)"
  then show "(if b = key_of node_C then (0::nat) else 1) < (if a = key_of node_C then 0 else 1)"
    by (auto simp: edges_def pipeline_ABC_def key_of_def example_defs node_B_def)
qed

lemma length_ABC: "length (pre_graph pipeline_ABC) \<le> 3"
  by (simp add: pipeline_ABC_def)

lemma levels_ABC:
  "compute_node_levels 3 pipeline_ABC =
     Inr ([(node_A, 0), (node_B, 0), (node_C, 1)],
          pipeline_ABC\<lparr>node_levels := Some [(node_A, 0), (node_B, 0), (node_C, 1)]\<rparr>)"
  by (simp add: compute_node_levels_def dict_keys_def get_preimage_def node_eq_def
      pipeline_ABC_def example_defs node_B_def numeral_3_eq_3 numeral_2_eq_2)

lemma buckets_ABC:
  "\<exists>p'. get_nodes_by_level 3 pipeline_ABC = Inr ([[node_A, node_B], [node_C]], p')"
  by (simp add: get_nodes_by_level_def compute_max_level_def compute_node_levels_def
      dict_keys_def get_preimage_def node_eq_def bucket_append_def
      pipeline_ABC_def example_defs node_B_def numeral_3_eq_3 numeral_2_eq_2)

text \<open>
  A cyclic graph, for comparison: the pipeline built by \<^verbatim>\<open>add_edge(A, A)\<close>. The level
  computation uses up the nested calls it is given and raises \<^verbatim>\<open>RecursionError\<close>.
\<close>

lemma pipeline_loop_recursion:
  "add_edge Pipeline_init node_A node_A = Inr pipeline_loop \<and>
   compute_node_levels 4 pipeline_loop = Inl RecursionError"
  by (simp add: add_edge_def add_node_def dict_contains_def compute_node_levels_def
      dict_keys_def get_preimage_def node_eq_def pipeline_loop_def example_defs
      numeral_eq_Suc)

text \<open>
  C9: in every pipeline reachable from the empty pipeline by calls of \<^verbatim>\<open>add_node\<close> and
  \<^verbatim>\<open>add_edge\<close> (and of the level queries, which do not touch the graph), \<open>pre_graph\<close>
  and \<open>post_graph\<close> have the same keys: the same key objects in the same order, hence
  the same key set, and a node is a key of one exactly when it is a key of the other.
\<close>

theorem graph_keys_agree:
  "reachable p \<Longrightarrow>
     dict_keys (pre_graph p) = dict_keys (post_graph p) \<and>
     set (dict_keys (pre_graph p)) = set (dict_keys (post_graph p)) \<and>
     (\<forall>n. dict_contains (pre_graph p) n \<longleftrightarrow> dict_contains (post_graph p) n)"
  using graph_invD(1) [OF reachable_graph_inv, of p] by (simp add: dict_contains_keys)

text \<open>
  C9 at the pipeline of the first scenario.
\<close>

theorem graph_keys_agree_witness:
  "reachable pipeline_ABC \<and>
   dict_keys (pre_graph pipeline_ABC) = dict_keys (post_graph pipeline_ABC) \<and>
   set (dict_keys (pre_graph pipeline_ABC)) = set (dict_keys (post_graph pipeline_ABC)) \<and>
   (\<forall>n. dict_contains (pre_graph pipeline_ABC) n \<longleftrightarrow> dict_contains (post_graph pipeline_ABC) n)"
  using reachable_ABC graph_keys_agree [OF reachable_ABC] by simp

text \<open>
  The levels of a predecessor list, as a list of lookups.
\<close>

lemma levels_list:
  "list_all2 (\<lambda>q lq. dict_get r q = Some lq) pre ls \<longleftrightarrow> map (dict_get r) pre = map Some ls"
proof (induction pre arbitrary: ls)
  case Nil
  show ?case by auto
next
  case (Cons q pre)
  show ?case by (cases ls) (auto simp: Cons.IH)
qed

lemma level_recurrence:
  assumes ok: "memo_ok p r" and l: "dict_get r n = Some l"
    and pre: "dict_get (pre_graph p) n = Some pre"
  shows "pre = [] \<longrightarrow> l = 0"
    and "pre \<noteq> [] \<longrightarrow> (\<exists>ls. map (dict_get r) pre = map Some ls \<and> l = 1 + Max (set ls))"
    and "\<forall>q \<in> set pre. \<exists>lq. dict_get r q = Some lq \<and> lq + 1 \<le> l"
    and "pre \<noteq> [] \<longrightarrow> (\<exists>q \<in> set pre. dict_get r q = Some (l - 1))"
proof -
  from ok l have "rec_ok p r n l" by (simp add: memo_ok_def)
  with pre have z: "pre = [] \<longrightarrow> l = 0" and
    nz: "pre \<noteq> [] \<longrightarrow> (\<exists>ls. list_all2 (\<lambda>q lq. dict_get r q = Some lq) pre ls \<and> l = 1 + fold max ls 0)"
    by (auto simp: rec_ok_def)
  have main: "(\<exists>ls. map (dict_get r) pre = map Some ls \<and> l = 1 + Max (set ls)) \<and>
      (\<forall>q \<in> set pre. \<exists>lq. dict_get r q = Some lq \<and> lq + 1 \<le> l) \<and>
      (\<exists>q \<in> set pre. dict_get r q = Some (l - 1))" if ne: "pre \<noteq> []"
  proof -
    from nz ne obtain ls where ls: "list_all2 (\<lambda>q lq. dict_get r q = Some lq) pre ls"
      and lv: "l = 1 + fold max ls 0" by blast
    from ls have len: "length pre = length ls" by (rule list_all2_lengthD)
    with ne have lne: "ls \<noteq> []" by auto
    have nth: "dict_get r (pre ! i) = Some (ls ! i)" if "i < length pre" for i
      using ls that by (simp add: list_all2_conv_all_nth)
    have "\<forall>x \<in> set ls. 0 \<le> x"
    proof
      fix x assume "x \<in> set ls"
      then obtain i where "i < length ls" and "ls ! i = x" by (auto simp: in_set_conv_nth)
      with nth [of i] len have "dict_get r (pre ! i) = Some x" by simp
      with ok show "0 \<le> x" by (rule memo_ok_get_nonneg)
    qed
    from fold_max_Max [OF lne this] lv have lM: "l = 1 + Max (set ls)" by simp
    have 1: "\<exists>ls. map (dict_get r) pre = map Some ls \<and> l = 1 + Max (set ls)"
      using ls lM by (auto simp: levels_list)
    have 2: "\<forall>q \<in> set pre. \<exists>lq. dict_get r q = Some lq \<and> lq + 1 \<le> l"
    proof
      fix q assume "q \<in> set pre"
      then obtain i where i: "i < length pre" and q: "pre ! i = q" by (auto simp: in_set_conv_nth)
      have "ls ! i \<in> set ls" using i len by simp
      then have "ls ! i \<le> Max (set ls)" by simp
      with nth [OF i] q lM show "\<exists>lq. dict_get r q = Some lq \<and> lq + 1 \<le> l" by auto
    qed
    have "Max (set ls) \<in> set ls" using lne by (intro Max_in) simp_all
    then obtain i where i: "i < length ls" and m: "ls ! i = Max (set ls)"
      by (auto simp: in_set_conv_nth)
    have "pre ! i \<in> set pre" using i len by simp
    moreover have "dict_get r (pre ! i) = Some (l - 1)" using nth [of i] i len m lM by simp
    ultimately have 3: "\<exists>q \<in> set pre. dict_get r q = Some (l - 1)" by blast
    from 1 2 3 show ?thesis by blast
  qed
  show "pre = [] \<longrightarrow> l = 0" by (rule z)
  show "pre \<noteq> [] \<longrightarrow> (\<exists>ls. map (dict_get r) pre = map Some ls \<and> l = 1 + Max (set ls))"
    using main by blast
  show "\<forall>q \<in> set pre. \<exists>lq. dict_get r q = Some lq \<and> lq + 1 \<le> l"
    using main by (cases "pre = []") auto
  show "pre \<noteq> [] \<longrightarrow> (\<exists>q \<in> set pre. dict_get r q = Some (l - 1))"
    using main by blast
qed

text \<open>
  What one successful run of \<^verbatim>\<open>compute_node_levels\<close> establishes, shared by the
  theorems below.
\<close>

lemma compute_node_levels_run:
  assumes "reachable p" and "acyclic (edges (pre_graph p))" and "length (pre_graph p) \<le> depth"
  shows "\<exists>levels p'. compute_node_levels depth p = Inr (levels, p') \<and> memo_ok p levels \<and>
           (\<forall>n. dict_contains (pre_graph p) n \<longrightarrow> dict_contains levels n) \<and>
           (\<forall>depth'. compute_node_levels depth' p' = Inr (levels, p'))"
proof -
  note gi = reachable_graph_inv [OF assms(1)] and ci = reachable_cache_inv [OF assms(1)]
  from compute_node_levels_total [OF gi ci assms(2,3)] obtain levels p' where
    run: "compute_node_levels depth p = Inr (levels, p')" by blast
  from compute_node_levels_fresh(1) [OF run ci] obtain d' where
    f: "fresh_levels d' p = Inr levels" by blast
  from fresh_levels_ok [OF f] compute_node_levels_again [OF run ci] run
  show ?thesis by blast
qed

text \<open>
  C1: for every reachable pipeline whose edge relation is acyclic, and with at least as
  many nested calls of \<^verbatim>\<open>compute_node_level\<close> available as the graph has nodes,
  \<^verbatim>\<open>compute_node_levels\<close> returns a level mapping, and for every node \<open>n\<close> of the graph
  with predecessor list \<open>pre\<close>: \<open>n\<close> has a level \<open>l\<close>; \<open>l = 0\<close> if \<open>pre\<close> is empty;
  otherwise every predecessor has a level and \<open>l\<close> is one more than the maximum of the
  predecessors' levels. Consequently, for every edge \<open>(q, n)\<close> the level of \<open>n\<close> is at
  least the level of \<open>q\<close> plus one, with equality for at least one predecessor.
\<close>

theorem levels_longest_path:
  assumes "reachable p" and "acyclic (edges (pre_graph p))" and "length (pre_graph p) \<le> depth"
  shows "\<exists>levels p'. compute_node_levels depth p = Inr (levels, p') \<and>
     (\<forall>n pre. dict_get (pre_graph p) n = Some pre \<longrightarrow>
        (\<exists>l. dict_get levels n = Some l \<and>
             (pre = [] \<longrightarrow> l = 0) \<and>
             (pre \<noteq> [] \<longrightarrow> (\<exists>ls. map (dict_get levels) pre = map Some ls \<and> l = 1 + Max (set ls))) \<and>
             (\<forall>q \<in> set pre. \<exists>lq. dict_get levels q = Some lq \<and> lq + 1 \<le> l) \<and>
             (pre \<noteq> [] \<longrightarrow> (\<exists>q \<in> set pre. dict_get levels q = Some (l - 1)))))"
proof -
  from compute_node_levels_run [OF assms] obtain levels p' where
    run: "compute_node_levels depth p = Inr (levels, p')" and ok: "memo_ok p levels" and
    all: "\<forall>n. dict_contains (pre_graph p) n \<longrightarrow> dict_contains levels n"
    by blast
  have "\<exists>l. dict_get levels n = Some l \<and>
             (pre = [] \<longrightarrow> l = 0) \<and>
             (pre \<noteq> [] \<longrightarrow> (\<exists>ls. map (dict_get levels) pre = map Some ls \<and> l = 1 + Max (set ls))) \<and>
             (\<forall>q \<in> set pre. \<exists>lq. dict_get levels q = Some lq \<and> lq + 1 \<le> l) \<and>
             (pre \<noteq> [] \<longrightarrow> (\<exists>q \<in> set pre. dict_get levels q = Some (l - 1)))"
    if pre: "dict_get (pre_graph p) n = Some pre" for n pre
  proof -
    from pre all obtain l where l: "dict_get levels n = Some l"
      by (auto simp: dict_contains_def)
    from level_recurrence [OF ok l pre] l show ?thesis by blast
  qed
  with run show ?thesis by blast
qed

text \<open>
  C1 at the pipeline of the first scenario, with three nested calls available.
\<close>

theorem levels_longest_path_witness:
  "reachable pipeline_ABC \<and> acyclic (edges (pre_graph pipeline_ABC)) \<and>
   length (pre_graph pipeline_ABC) \<le> 3 \<and>
   (\<exists>levels p'. compute_node_levels 3 pipeline_ABC = Inr (levels, p') \<and>
     (\<forall>n pre. dict_get (pre_graph pipeline_ABC) n = Some pre \<longrightarrow>
        (\<exists>l. dict_get levels n = Some l \<and>
             (pre = [] \<longrightarrow> l = 0) \<and>
             (pre \<noteq> [] \<longrightarrow> (\<exists>ls. map (dict_get levels) pre = map Some ls \<and> l = 1 + Max (set ls))) \<and>
             (\<forall>q \<in> set pre. \<exists>lq. dict_get levels q = Some lq \<and> lq + 1 \<le> l) \<and>
             (pre \<noteq> [] \<longrightarrow> (\<exists>q \<in> set pre. dict_get levels q = Some (l - 1))))))"
  using reachable_ABC acyclic_ABC length_ABC
    levels_longest_path [OF reachable_ABC acyclic_ABC length_ABC]
  by (intro conjI)

text \<open>
  C8: for every reachable pipeline whose edge relation is acyclic (with at least as many
  nested calls available as the graph has nodes), \<^verbatim>\<open>compute_node_levels\<close> returns a level
  mapping, and a second call in the resulting pipeline, with no \<^verbatim>\<open>add_node\<close> or
  \<^verbatim>\<open>add_edge\<close> in between and whatever recursion depth is available, returns the
  identical mapping and leaves the pipeline as it is.
\<close>

theorem compute_node_levels_idempotent:
  assumes "reachable p" and "acyclic (edges (pre_graph p))" and "length (pre_graph p) \<le> depth"
  shows "\<exists>levels p'. compute_node_levels depth p = Inr (levels, p') \<and>
           (\<forall>depth'. compute_node_levels depth' p' = Inr (levels, p'))"
  using compute_node_levels_run [OF assms] by blast

text \<open>
  C8 at the pipeline of the first scenario.
\<close>

theorem compute_node_levels_idempotent_witness:
  "reachable pipeline_ABC \<and> acyclic (edges (pre_graph pipeline_ABC)) \<and>
   length (pre_graph pipeline_ABC) \<le> 3 \<and>
   (\<exists>levels p'. compute_node_levels 3 pipeline_ABC = Inr (levels, p') \<and>
      (\<forall>depth'. compute_node_levels depth' p' = Inr (levels, p')))"
  using reachable_ABC acyclic_ABC length_ABC
    compute_node_levels_idempotent [OF reachable_ABC acyclic_ABC length_ABC]
  by (intro conjI)

lemma bucket_of_member: "m \<in> set (bucket_of r i) \<longleftrightarrow> (m, int i) \<in> set r"
  by (force simp: bucket_of_def)

lemma bucket_of_distinct:
  "distinct (map key_of (dict_keys r)) \<Longrightarrow> distinct (map key_of (bucket_of r i))"
  unfolding bucket_of_def dict_keys_def map_map by (rule distinct_map_filter)

lemma get_nodes_by_level_run:
  assumes "reachable p" and "acyclic (edges (pre_graph p))" and "length (pre_graph p) \<le> depth"
  shows "\<exists>buckets p' levels p1.
           get_nodes_by_level depth p = Inr (buckets, p') \<and>
           compute_node_levels depth p = Inr (levels, p1) \<and> memo_ok p levels \<and>
           (\<forall>n. dict_contains (pre_graph p) n \<longrightarrow> dict_contains levels n) \<and>
           buckets = map (bucket_of levels) [0..<nat (max_of_levels levels + 1)]"
proof -
  note ci = reachable_cache_inv [OF assms(1)]
  from compute_node_levels_run [OF assms] obtain levels p1 where
    run: "compute_node_levels depth p = Inr (levels, p1)" and ok: "memo_ok p levels" and
    all: "\<forall>n. dict_contains (pre_graph p) n \<longrightarrow> dict_contains levels n"
    by blast
  note fb = fresh_buckets_char [OF ok]
  from compute_node_levels_fresh(1) [OF run ci] obtain d1 where
    f1: "fresh_levels d1 p = Inr levels" by blast
  have "\<exists>p'. get_nodes_by_level depth p =
      Inr (map (bucket_of levels) [0..<nat (max_of_levels levels + 1)], p')"
  proof (cases "level_nodes p = None \<or> level_nodes p = Some []")
    case True
    from get_nodes_by_level_uncached [OF True ci run] fb show ?thesis by simp
  next
    case False
    then obtain b where b: "level_nodes p = Some b" and "b \<noteq> []" by auto
    then have res: "get_nodes_by_level depth p = Inr (b, p)"
      by (simp add: get_nodes_by_level_if)
    from get_nodes_by_level_fresh(1) [OF res ci] obtain d0 r0 where
      "fresh_levels d0 p = Inr r0" and "fresh_buckets r0 = Inr b" by blast
    with fresh_levels_unique [OF f1] fb have "b = map (bucket_of levels) [0..<nat (max_of_levels levels + 1)]"
      by auto
    with res show ?thesis by blast
  qed
  with run ok all show ?thesis by blast
qed

lemma buckets_partition:
  assumes ok: "memo_ok p levels"
    and all: "\<forall>n. dict_contains (pre_graph p) n \<longrightarrow> dict_contains levels n"
    and b: "buckets = map (bucket_of levels) [0..<nat (max_of_levels levels + 1)]"
  shows "\<forall>n. dict_contains (pre_graph p) n \<longrightarrow>
           (\<exists>!ij. fst ij < length buckets \<and> snd ij < length (buckets ! fst ij) \<and>
                  node_eq (buckets ! fst ij ! snd ij) n)"
    and "\<forall>i < length buckets. \<forall>m \<in> set (buckets ! i). dict_contains (pre_graph p) m"
    and "\<forall>i < length buckets. \<forall>n.
           (\<exists>m \<in> set (buckets ! i). node_eq m n) \<longleftrightarrow> dict_get levels n = Some (int i)"
proof -
  have len: "length buckets = nat (max_of_levels levels + 1)" by (simp add: b)
  have nth: "buckets ! i = bucket_of levels i" if "i < length buckets" for i
    using that by (simp add: b)
  have dist: "distinct (map key_of (dict_keys levels))" using ok by (simp add: memo_ok_def)
  have level_iff: "(\<exists>m \<in> set (buckets ! i). node_eq m n) \<longleftrightarrow> dict_get levels n = Some (int i)"
    if i: "i < length buckets" for i n
  proof
    assume "\<exists>m \<in> set (buckets ! i). node_eq m n"
    then obtain m where "(m, int i) \<in> set levels" and eq: "node_eq m n"
      by (auto simp: nth [OF i] bucket_of_member)
    from memo_ok_entry(1) [OF ok this(1)] dict_get_cong [OF eq, of levels]
    show "dict_get levels n = Some (int i)" by simp
  next
    assume "dict_get levels n = Some (int i)"
    from dict_get_Some_entry [OF this] show "\<exists>m \<in> set (buckets ! i). node_eq m n"
      by (auto simp: nth [OF i] bucket_of_member)
  qed
  show "\<forall>i < length buckets. \<forall>n.
           (\<exists>m \<in> set (buckets ! i). node_eq m n) \<longleftrightarrow> dict_get levels n = Some (int i)"
    using level_iff by blast
  show "\<forall>i < length buckets. \<forall>m \<in> set (buckets ! i). dict_contains (pre_graph p) m"
    using memo_ok_entry(3) [OF ok] by (auto simp: nth bucket_of_member)
  show "\<forall>n. dict_contains (pre_graph p) n \<longrightarrow>
           (\<exists>!ij. fst ij < length buckets \<and> snd ij < length (buckets ! fst ij) \<and>
                  node_eq (buckets ! fst ij ! snd ij) n)"
  proof (intro allI impI)
    fix n
    assume "dict_contains (pre_graph p) n"
    with all obtain l where l: "dict_get levels n = Some l" by (auto simp: dict_contains_def)
    from dict_get_Some_entry [OF l] obtain m where m: "(m, l) \<in> set levels" and eq: "node_eq m n"
      by blast
    from memo_ok_entry(2) [OF ok m] max_of_levels_bound [OF m]
    have l0: "0 \<le> l" and i: "nat l < length buckets" by (simp_all add: len)
    from m l0 have "m \<in> set (buckets ! nat l)" by (simp add: nth [OF i] bucket_of_member)
    then obtain j where j: "j < length (buckets ! nat l)" and mj: "buckets ! nat l ! j = m"
      by (auto simp: in_set_conv_nth)
    show "\<exists>!ij. fst ij < length buckets \<and> snd ij < length (buckets ! fst ij) \<and>
                  node_eq (buckets ! fst ij ! snd ij) n"
    proof (rule ex1I [of _ "(nat l, j)"])
      show "fst (nat l, j) < length buckets \<and> snd (nat l, j) < length (buckets ! fst (nat l, j)) \<and>
            node_eq (buckets ! fst (nat l, j) ! snd (nat l, j)) n"
        using i j mj eq by simp
    next
      fix ij
      assume a: "fst ij < length buckets \<and> snd ij < length (buckets ! fst ij) \<and>
            node_eq (buckets ! fst ij ! snd ij) n"
      obtain i' j' where ij: "ij = (i', j')" by (cases ij)
      from a have i': "i' < length buckets" and j': "j' < length (buckets ! i')"
        and eq': "node_eq (buckets ! i' ! j') n" by (simp_all add: ij)
      from j' eq' have "\<exists>m \<in> set (buckets ! i'). node_eq m n" by auto
      with level_iff [OF i'] l have "l = int i'" by simp
      then have ii: "i' = nat l" by simp
      have d: "distinct (map key_of (buckets ! nat l))"
        using bucket_of_distinct [OF dist] by (simp add: nth [OF i])
      have "key_of (buckets ! nat l ! j') = key_of (buckets ! nat l ! j)"
        using eq' eq mj by (simp add: ii node_eq_key)
      then have keq: "map key_of (buckets ! nat l) ! j' = map key_of (buckets ! nat l) ! j"
        using j j' by (simp add: ii)
      from d have "(map key_of (buckets ! nat l) ! j' = map key_of (buckets ! nat l) ! j) = (j' = j)"
        by (rule nth_eq_iff_index_eq) (use j j' ii in simp_all)
      with keq have "j' = j" by blast
      with ii show "ij = (nat l, j)" by (simp add: ij)
    qed
  qed
qed

text \<open>
  C6: for every reachable pipeline whose edge relation is acyclic (with at least as many
  nested calls available as the graph has nodes), \<^verbatim>\<open>get_nodes_by_level\<close> returns buckets
  such that every node of the graph occurs at exactly one position (bucket index and
  index inside the bucket) of the buckets, so no node is omitted and none occurs twice;
  every member of a bucket is a node of the graph; and a node occurs in bucket \<open>i\<close>
  exactly when \<^verbatim>\<open>compute_node_levels\<close> gives it the level \<open>i\<close>.
\<close>

theorem nodes_by_level_partition:
  assumes "reachable p" and "acyclic (edges (pre_graph p))" and "length (pre_graph p) \<le> depth"
  shows "\<exists>buckets p' levels p1.
     get_nodes_by_level depth p = Inr (buckets, p') \<and>
     compute_node_levels depth p = Inr (levels, p1) \<and>
     (\<forall>n. dict_contains (pre_graph p) n \<longrightarrow>
        (\<exists>!ij. fst ij < length buckets \<and> snd ij < length (buckets ! fst ij) \<and>
               node_eq (buckets ! fst ij ! snd ij) n)) \<and>
     (\<forall>i < length buckets. \<forall>m \<in> set (buckets ! i). dict_contains (pre_graph p) m) \<and>
     (\<forall>i < length buckets. \<forall>n.
        (\<exists>m \<in> set (buckets ! i). node_eq m n) \<longleftrightarrow> dict_get levels n = Some (int i))"
proof -
  from get_nodes_by_level_run [OF assms] obtain buckets p' levels p1 where
    1: "get_nodes_by_level depth p = Inr (buckets, p')" and
    2: "compute_node_levels depth p = Inr (levels, p1)" and
    ok: "memo_ok p levels" and
    all: "\<forall>n. dict_contains (pre_graph p) n \<longrightarrow> dict_contains levels n" and
    b: "buckets = map (bucket_of levels) [0..<nat (max_of_levels levels + 1)]"
    by blast
  from 1 2 buckets_partition [OF ok all b] show ?thesis by blast
qed

text \<open>
  C6 at the pipeline of the first scenario.
\<close>

theorem nodes_by_level_partition_witness:
  "reachable pipeline_ABC \<and> acyclic (edges (pre_graph pipeline_ABC)) \<and>
   length (pre_graph pipeline_ABC) \<le> 3 \<and>
   (\<exists>buckets p' levels p1.
     get_nodes_by_level 3 pipeline_ABC = Inr (buckets, p') \<and>
     compute_node_levels 3 pipeline_ABC = Inr (levels, p1) \<and>
     (\<forall>n. dict_contains (pre_graph pipeline_ABC) n \<longrightarrow>
        (\<exists>!ij. fst ij < length buckets \<and> snd ij < length (buckets ! fst ij) \<and>
               node_eq (buckets ! fst ij ! snd ij) n)) \<and>
     (\<forall>i < length buckets. \<forall>m \<in> set (buckets ! i). dict_contains (pre_graph pipeline_ABC) m) \<and>
     (\<forall>i < length buckets. \<forall>n.
        (\<exists>m \<in> set (buckets ! i). node_eq m n) \<longleftrightarrow> dict_get levels n = Some (int i)))"
  using reachable_ABC acyclic_ABC length_ABC
    nodes_by_level_partition [OF reachable_ABC acyclic_ABC length_ABC]
  by (intro conjI)

end
